theory Spec2Isabelle
  imports Complex_Main "HOL-Library.Word" "HOL-Library.AList" "HOL-Library.Multiset"
    "HOL-Library.Sublist"
begin

section \<open>JavaScript values used by d0ma1n\<close>

text \<open>
  A JavaScript string is a sequence of UTF-16 code units. The code indexes strings by code
  unit (\<^verbatim>\<open>encoded[pos]\<close>, \<^verbatim>\<open>slice\<close>, \<^verbatim>\<open>lastIndexOf\<close>) and by code point
  (\<^verbatim>\<open>[...label]\<close>), so both views are modelled. ASCII literals of the source are written
  \<open>js ''...''\<close>.

  Numbers: scores (\<^verbatim>\<open>danger\<close>, \<^verbatim>\<open>stableDanger\<close>, \<^verbatim>\<open>threshold\<close>) are modelled as real
  numbers and counters as unbounded integers; IEEE rounding, NaN and the loss of integer
  precision above \<open>2^53\<close> are outside the model.
\<close>

type_synonym jsstring = "16 word list"

definition js :: "string \<Rightarrow> jsstring" where
  "js s = map (\<lambda>c. of_nat (of_char c)) s"

definition isHighSurrogate :: "16 word \<Rightarrow> bool" where
  "isHighSurrogate u = (0xD800 \<le> u \<and> u \<le> 0xDBFF)"

definition isLowSurrogate :: "16 word \<Rightarrow> bool" where
  "isLowSurrogate u = (0xDC00 \<le> u \<and> u \<le> 0xDFFF)"

text \<open>The string iterator \<^verbatim>\<open>[...s]\<close>: one string per code point; a high surrogate
  followed by a low surrogate is one code point, any other unit stands alone.\<close>

fun codePoints :: "jsstring \<Rightarrow> jsstring list" where
  "codePoints [] = []"
| "codePoints [u] = [[u]]"
| "codePoints (u # v # rest) =
     (if isHighSurrogate u \<and> isLowSurrogate v then [u, v] # codePoints rest
      else [u] # codePoints (v # rest))"

text \<open>\<^verbatim>\<open>parts.join("")\<close>.\<close>

definition join :: "jsstring list \<Rightarrow> jsstring" where
  "join parts = concat parts"

text \<open>\<^verbatim>\<open>xs.slice(0, n)\<close> for an integer \<open>n\<close>: a negative end counts from the end
  of the array.\<close>

definition slice0 :: "int \<Rightarrow> 'a list \<Rightarrow> 'a list" where
  "slice0 n xs = (if n < 0 then take (nat (int (length xs) + n)) xs else take (nat n) xs)"

definition startsWith :: "jsstring \<Rightarrow> jsstring \<Rightarrow> bool" where
  "startsWith s p = (take (length p) s = p)"

definition endsWith :: "jsstring \<Rightarrow> jsstring \<Rightarrow> bool" where
  "endsWith s p = (length p \<le> length s \<and> drop (length s - length p) s = p)"

text \<open>\<^verbatim>\<open>s.lastIndexOf(c)\<close> for a one-unit needle; \<open>-1\<close> when it does not occur.\<close>

fun lastIndexOfFrom :: "16 word \<Rightarrow> int \<Rightarrow> int \<Rightarrow> jsstring \<Rightarrow> int" where
  "lastIndexOfFrom c idx found [] = found"
| "lastIndexOfFrom c idx found (u # us) =
     lastIndexOfFrom c (idx + 1) (if u = c then idx else found) us"

definition lastIndexOf :: "jsstring \<Rightarrow> 16 word \<Rightarrow> int" where
  "lastIndexOf s c = lastIndexOfFrom c 0 (-1) s"

text \<open>\<^verbatim>\<open>Array.prototype.sort(cmp)\<close> is a stable sort. For a comparator that is a total
  preorder its result is the one of stable insertion sort, which is the model here.\<close>

fun insertBy :: "('a \<Rightarrow> 'a \<Rightarrow> real) \<Rightarrow> 'a \<Rightarrow> 'a list \<Rightarrow> 'a list" where
  "insertBy cmp x [] = [x]"
| "insertBy cmp x (y # ys) = (if cmp x y \<le> 0 then x # y # ys else y # insertBy cmp x ys)"

definition sortBy :: "('a \<Rightarrow> 'a \<Rightarrow> real) \<Rightarrow> 'a list \<Rightarrow> 'a list" where
  "sortBy cmp xs = foldr (insertBy cmp) xs []"

section \<open>Data model (types.ts)\<close>

record Substitution =
  position :: nat
  original :: jsstring
  replacement :: jsstring
  codepoint :: jsstring
  script :: jsstring
  danger :: real
  stableDanger :: real
  idnaPvalid :: bool

text \<open>The fields of the other records carry a prefix (\<open>dns_\<close>, \<open>dv_\<close>, \<open>rv_\<close>, ...)
  in front of their source name, which keeps the source's parameter names free.\<close>

datatype ThreatLevel = active | parked | unregistered

record MxRecord =
  mx_priority :: int
  mx_exchange :: jsstring

record DnsResult =
  dns_registered :: bool
  dns_a :: "jsstring list"
  dns_aaaa :: "jsstring list"
  dns_mx :: "MxRecord list"
  dns_ns :: "jsstring list"
  dns_hasMx :: bool
  dns_threatLevel :: ThreatLevel

record DomainVariant =
  dv_domain :: jsstring
  dv_dangerScore :: real
  dv_editCount :: nat
  dv_substitutions :: "Substitution list"
  dv_bestFont :: "jsstring option"
  dv_bestFontSsim :: "real option"
  dv_punycode :: jsstring
  dv_dns :: "DnsResult option"

record ConfusableSubstitute =
  cs_char :: jsstring
  cs_codepoint :: jsstring
  cs_script :: jsstring
  cs_danger :: real
  cs_stableDanger :: real
  cs_idnaPvalid :: bool

type_synonym PrototypeBuckets = "jsstring \<rightharpoonup> ConfusableSubstitute list"

text \<open>Options objects: a field that is absent (\<^verbatim>\<open>undefined\<close>) is \<open>None\<close>, and the
  defaults of the code (\<^verbatim>\<open>??\<close>) are applied where the code applies them.\<close>

record BuildOptions =
  bo_includeNonPvalid :: "bool option"
  bo_maxPerChar :: "int option"
  bo_useMaxDanger :: "bool option"

record GenerateOptions =
  go_maxEdits :: "int option"
  go_maxPerChar :: "int option"
  go_maxVariants :: "int option"
  go_includeNonPvalid :: "bool option"
  go_useMaxDanger :: "bool option"

record ScoreOptions =
  so_useMaxDanger :: "bool option"
  so_font :: "jsstring option"

record ScanOptions =
  sc_maxEdits :: "int option"
  sc_maxPerChar :: "int option"
  sc_maxVariants :: "int option"
  sc_includeNonPvalid :: "bool option"
  sc_useMaxDanger :: "bool option"
  sc_font :: "jsstring option"
  sc_resolve :: "bool option"
  sc_top :: "int option"
  sc_threshold :: "real option"
  sc_tlds :: "jsstring list option"
  sc_tldVariants :: "bool option"
  sc_concurrency :: "int option"
  sc_timeout :: "int option"

record RawVariant =
  rv_label :: jsstring
  rv_substitutions :: "Substitution list"

record ScanResult =
  sr_original :: jsstring
  sr_label :: jsstring
  sr_tld :: jsstring
  sr_totalGenerated :: nat
  sr_variants :: "DomainVariant list"

record Impersonation =
  im_domain :: jsstring
  im_similarity :: real
  im_substitutions :: "Substitution list"

record ReverseScanResult =
  rs_domain :: jsstring
  rs_punycode :: jsstring
  rs_impersonates :: "Impersonation list"

section \<open>What the code imports: data tables and platform functions\<close>

text \<open>
  The tables of the package \<^verbatim>\<open>namespace-guard\<close> and the platform functions are not part
  of the repository; they are parameters of the model. A table is the list of its entries
  in \<^verbatim>\<open>Object.entries\<close> order and is read with \<open>map_of\<close>.
  \<^item> \<open>toLowerCase\<close>, \<open>toUpperCase\<close>: \<^verbatim>\<open>String.prototype.toLowerCase/toUpperCase\<close>;
  \<^item> \<open>scriptTest name ch\<close>: \<^verbatim>\<open>/\p{Script=name}/u.test(ch)\<close>;
  \<^item> \<open>urlHostname s\<close>: \<^verbatim>\<open>new URL(s).hostname\<close>, \<open>None\<close> when the constructor throws;
  \<^item> \<open>dnsLookup d\<close>: the A, AAAA, MX and NS records the resolver obtains for \<open>d\<close>
    (empty on failure or timeout).
\<close>

record ConfusableWeight =
  w_danger :: real
  w_stableDanger :: real
  w_idnaPvalid :: "bool option"

type_synonym ConfusableWeights = "(jsstring \<times> (jsstring \<times> ConfusableWeight) list) list"

record env =
  CONFUSABLE_MAP_FULL :: "(jsstring \<times> jsstring) list"
  CONFUSABLE_WEIGHTS :: ConfusableWeights
  FONT_SPECIFIC_WEIGHTS :: "(jsstring \<times> ConfusableWeights) list"
  toLowerCase :: "jsstring \<Rightarrow> jsstring"
  toUpperCase :: "jsstring \<Rightarrow> jsstring"
  scriptTest :: "jsstring \<Rightarrow> jsstring \<Rightarrow> bool"
  urlHostname :: "jsstring \<Rightarrow> jsstring option"
  dnsLookup :: "jsstring \<Rightarrow> jsstring list \<times> jsstring list \<times> MxRecord list \<times> jsstring list"

text \<open>\<^verbatim>\<open>weights[x]?.[y]\<close>, and \<^verbatim>\<open>p ?? q\<close> on optional values.\<close>

definition weightAt :: "ConfusableWeights \<Rightarrow> jsstring \<Rightarrow> jsstring \<Rightarrow> ConfusableWeight option" where
  "weightAt weights x y = (case map_of weights x of None \<Rightarrow> None | Some targets \<Rightarrow> map_of targets y)"

definition orElse :: "'a option \<Rightarrow> 'a option \<Rightarrow> 'a option" where
  "orElse p q = (case p of None \<Rightarrow> q | Some v \<Rightarrow> Some v)"

definition orDefault :: "'a option \<Rightarrow> 'a \<Rightarrow> 'a" where
  "orDefault p d = (case p of None \<Rightarrow> d | Some v \<Rightarrow> v)"

text \<open>The four-way lookup of a pair's weight, written out at three places of the source.\<close>

definition lookupWeight4 :: "env \<Rightarrow> ConfusableWeights \<Rightarrow> jsstring \<Rightarrow> jsstring \<Rightarrow> ConfusableWeight option" where
  "lookupWeight4 e weights ch proto =
     orElse (weightAt weights ch proto)
       (orElse (weightAt weights proto ch)
         (orElse (weightAt weights ch (toUpperCase e proto))
                 (weightAt weights (toUpperCase e proto) ch)))"

section \<open>Confusable graph builder (reverse-map.ts)\<close>

definition SCRIPT_DETECTORS :: "jsstring list" where
  "SCRIPT_DETECTORS =
     map js [''Latin'', ''Cyrillic'', ''Greek'', ''Armenian'', ''Hebrew'', ''Arabic'',
             ''Devanagari'', ''Han'', ''Hiragana'', ''Katakana'', ''Hangul'', ''Georgian'',
             ''Thai'']"

definition getScript :: "env \<Rightarrow> jsstring \<Rightarrow> jsstring" where
  "getScript e ch =
     (case find (\<lambda>name. scriptTest e name ch) SCRIPT_DETECTORS of
        Some name \<Rightarrow> name
      | None \<Rightarrow> js ''Common'')"

text \<open>\<^verbatim>\<open>ch.codePointAt(0)\<close>; \<open>None\<close> is \<^verbatim>\<open>undefined\<close> (the empty string).\<close>

fun codePointAt0 :: "jsstring \<Rightarrow> nat option" where
  "codePointAt0 [] = None"
| "codePointAt0 [u] = Some (unat u)"
| "codePointAt0 (u # v # rest) =
     (if isHighSurrogate u \<and> isLowSurrogate v
      then Some (0x10000 + (unat u - 0xD800) * 0x400 + (unat v - 0xDC00))
      else Some (unat u))"

text \<open>\<^verbatim>\<open>cp.toString(16).toUpperCase()\<close>.\<close>

definition hexDigit :: "nat \<Rightarrow> 16 word" where
  "hexDigit d = (if d < 10 then of_nat (0x30 + d) else of_nat (0x41 + (d - 10)))"

function toHexUpper :: "nat \<Rightarrow> jsstring" where
  "toHexUpper n = (if n < 16 then [hexDigit n] else toHexUpper (n div 16) @ [hexDigit (n mod 16)])"
  by pat_completeness auto
termination
  by (relation "measure id") auto

declare toHexUpper.simps [simp del]

definition padStart4 :: "jsstring \<Rightarrow> jsstring" where
  "padStart4 s = replicate (4 - length s) 0x30 @ s"

definition toCodepoint :: "jsstring \<Rightarrow> jsstring" where
  "toCodepoint ch =
     (case codePointAt0 ch of
        None \<Rightarrow> js ''U+0000''
      | Some cp \<Rightarrow> js ''U+'' @ padStart4 (toHexUpper cp))"

text \<open>
  \<^verbatim>\<open>raw: Record<string, Map<string, ConfusableSubstitute>>\<close>. The inner \<^verbatim>\<open>Map\<close> keeps
  insertion order (it is read with \<^verbatim>\<open>map.values()\<close>), so it is an association list
  updated with \<open>AList.update\<close>: an existing key keeps its place, a new key goes last.
\<close>

type_synonym RawBuckets = "jsstring \<rightharpoonup> (jsstring \<times> ConfusableSubstitute) list"

definition ensureBucket :: "jsstring \<Rightarrow> RawBuckets \<Rightarrow> RawBuckets" where
  "ensureBucket proto raw = (case raw proto of None \<Rightarrow> raw(proto \<mapsto> []) | Some m \<Rightarrow> raw)"

definition addEdge ::
  "env \<Rightarrow> bool \<Rightarrow> jsstring \<Rightarrow> jsstring \<Rightarrow> real \<Rightarrow> real \<Rightarrow> bool \<Rightarrow> RawBuckets \<Rightarrow> RawBuckets" where
  "addEdge e includeNonPvalid' frm sub danger' stableDanger' idnaPvalid' raw =
     (if frm = sub then raw
      else if \<not> includeNonPvalid' \<and> \<not> idnaPvalid' then raw
      else
        let raw1 = ensureBucket frm raw;
            bucket = orDefault (raw1 frm) []
        in case map_of bucket sub of
             Some existing \<Rightarrow>
               if stableDanger' > cs_stableDanger existing
               then raw1(frm \<mapsto> AList.update sub
                      (existing\<lparr>cs_danger := danger',
                                cs_stableDanger := stableDanger',
                                cs_idnaPvalid := (cs_idnaPvalid existing \<or> idnaPvalid')\<rparr>) bucket)
               else raw1
           | None \<Rightarrow>
               raw1(frm \<mapsto> AList.update sub
                      \<lparr>cs_char = sub, cs_codepoint = toCodepoint sub, cs_script = getScript e sub,
                       cs_danger = danger', cs_stableDanger = stableDanger',
                       cs_idnaPvalid = idnaPvalid'\<rparr> bucket))"

text \<open>Step 1, the body of the loop over \<^verbatim>\<open>Object.entries(CONFUSABLE_MAP_FULL)\<close>.\<close>

definition addMapEntry :: "env \<Rightarrow> bool \<Rightarrow> RawBuckets \<Rightarrow> jsstring \<times> jsstring \<Rightarrow> RawBuckets" where
  "addMapEntry e includeNonPvalid' raw entry =
     (case entry of (char, prototype) \<Rightarrow>
        if char = prototype then raw
        else
          let w = lookupWeight4 e (CONFUSABLE_WEIGHTS e) char prototype;
              danger = (case w of None \<Rightarrow> 0.5 | Some x \<Rightarrow> w_danger x);
              stableDanger = (case w of None \<Rightarrow> 0.5 | Some x \<Rightarrow> w_stableDanger x);
              idnaPvalid = (case w of None \<Rightarrow> False | Some x \<Rightarrow> orDefault (w_idnaPvalid x) False)
          in addEdge e includeNonPvalid' char prototype danger stableDanger idnaPvalid
               (addEdge e includeNonPvalid' prototype char danger stableDanger idnaPvalid raw))"

text \<open>Step 2, the body of the inner and of the outer loop over \<^verbatim>\<open>CONFUSABLE_WEIGHTS\<close>.\<close>

definition addWeightPair ::
  "env \<Rightarrow> bool \<Rightarrow> jsstring \<Rightarrow> RawBuckets \<Rightarrow> jsstring \<times> ConfusableWeight \<Rightarrow> RawBuckets" where
  "addWeightPair e includeNonPvalid' keyA raw target =
     (case target of (keyB, weight) \<Rightarrow>
        let aLower = toLowerCase e keyA;
            bLower = toLowerCase e keyB
        in addEdge e includeNonPvalid' bLower keyA (w_danger weight) (w_stableDanger weight)
               (orDefault (w_idnaPvalid weight) False)
             (addEdge e includeNonPvalid' aLower keyB (w_danger weight) (w_stableDanger weight)
               (orDefault (w_idnaPvalid weight) False) raw))"

definition addWeightRow ::
  "env \<Rightarrow> bool \<Rightarrow> RawBuckets \<Rightarrow> jsstring \<times> (jsstring \<times> ConfusableWeight) list \<Rightarrow> RawBuckets" where
  "addWeightRow e includeNonPvalid' raw row =
     (case row of (keyA, targets) \<Rightarrow> foldl (addWeightPair e includeNonPvalid' keyA) raw targets)"

definition buildRaw :: "env \<Rightarrow> bool \<Rightarrow> RawBuckets" where
  "buildRaw e includeNonPvalid' =
     foldl (addWeightRow e includeNonPvalid')
       (foldl (addMapEntry e includeNonPvalid') Map.empty (CONFUSABLE_MAP_FULL e))
       (CONFUSABLE_WEIGHTS e)"

datatype ScoreKey = dangerKey | stableDangerKey

text \<open>Step 3: \<^verbatim>\<open>a[scoreKey]\<close> on a substitute, the sort and the cap.\<close>

definition subScoreOf :: "ScoreKey \<Rightarrow> ConfusableSubstitute \<Rightarrow> real" where
  "subScoreOf k s = (case k of dangerKey \<Rightarrow> cs_danger s | stableDangerKey \<Rightarrow> cs_stableDanger s)"

definition buildPrototypeBuckets :: "env \<Rightarrow> BuildOptions \<Rightarrow> PrototypeBuckets" where
  "buildPrototypeBuckets e options =
     (let includeNonPvalid' = orDefault (bo_includeNonPvalid options) False;
          maxPerChar' = orDefault (bo_maxPerChar options) 50;
          useMaxDanger' = orDefault (bo_useMaxDanger options) False;
          raw = buildRaw e includeNonPvalid';
          scoreKey = (if useMaxDanger' then dangerKey else stableDangerKey)
      in (\<lambda>proto.
            case raw proto of
              None \<Rightarrow> None
            | Some m \<Rightarrow>
                Some (slice0 maxPerChar'
                        (sortBy (\<lambda>x y. subScoreOf scoreKey y - subScoreOf scoreKey x)
                           (map snd m)))))"

section \<open>Variant generator (generate.ts)\<close>

text \<open>A \<^verbatim>\<open>for\<close> loop whose body may leave the function: the body returns \<open>False\<close> to
  stop (the source's \<^verbatim>\<open>return finalize(variants, scoreKey)\<close>) and \<open>True\<close> to go on.\<close>

fun forEach :: "('a \<Rightarrow> 's \<Rightarrow> bool \<times> 's) \<Rightarrow> 'a list \<Rightarrow> 's \<Rightarrow> bool \<times> 's" where
  "forEach body [] st = (True, st)"
| "forEach body (x # xs) st =
     (case body x st of
        (False, st') \<Rightarrow> (False, st')
      | (True, st') \<Rightarrow> forEach body xs st')"

text \<open>The generator's state: the set \<^verbatim>\<open>seen\<close> and the array \<^verbatim>\<open>variants\<close>.\<close>

type_synonym genState = "jsstring set \<times> RawVariant list"

definition tryAdd :: "int \<Rightarrow> jsstring list \<Rightarrow> Substitution list \<Rightarrow> genState \<Rightarrow> bool \<times> genState" where
  "tryAdd maxVariants' mutatedChars subs st =
     (case st of (seen, variants') \<Rightarrow>
        if int (length variants') \<ge> maxVariants' then (False, st)
        else
          let mutated = join mutatedChars
          in if mutated \<in> seen then (True, st)
             else (True, (insert mutated seen,
                          variants' @ [\<lparr>rv_label = mutated, rv_substitutions = subs\<rparr>])))"

definition makeSubstitution :: "nat \<Rightarrow> jsstring \<Rightarrow> ConfusableSubstitute \<Rightarrow> Substitution" where
  "makeSubstitution position' original' sub =
     \<lparr>position = position', original = original', replacement = cs_char sub,
      codepoint = cs_codepoint sub, script = cs_script sub, danger = cs_danger sub,
      stableDanger = cs_stableDanger sub, idnaPvalid = cs_idnaPvalid sub\<rparr>"

text \<open>\<^verbatim>\<open>s[scoreKey]\<close> on a substitution.\<close>

definition scoreOf :: "ScoreKey \<Rightarrow> Substitution \<Rightarrow> real" where
  "scoreOf k s = (case k of dangerKey \<Rightarrow> danger s | stableDangerKey \<Rightarrow> stableDanger s)"

definition aggregateScore :: "Substitution list \<Rightarrow> ScoreKey \<Rightarrow> real" where
  "aggregateScore subs scoreKey =
     (if length subs = 0 then 0
      else foldl (\<lambda>product s. product * scoreOf scoreKey s) 1 subs
             * (1 - 0.1 * (real (length subs) - 1)))"

definition finalize :: "RawVariant list \<Rightarrow> ScoreKey \<Rightarrow> RawVariant list" where
  "finalize variants' scoreKey =
     sortBy (\<lambda>x y. aggregateScore (rv_substitutions y) scoreKey
                    - aggregateScore (rv_substitutions x) scoreKey) variants'"

text \<open>The 1-edit pass: the body for position \<open>i\<close>, and the loop over the positions.\<close>

definition oneEditAt ::
  "PrototypeBuckets \<Rightarrow> int \<Rightarrow> int \<Rightarrow> jsstring list \<Rightarrow> nat \<Rightarrow> genState \<Rightarrow> bool \<times> genState" where
  "oneEditAt protoBuckets maxPerChar' maxVariants' chars i st =
     (let proto = chars ! i
      in case protoBuckets proto of
           None \<Rightarrow> (True, st)
         | Some subs \<Rightarrow>
             forEach (\<lambda>sub. tryAdd maxVariants' (chars[i := cs_char sub])
                               [makeSubstitution i proto sub])
               (slice0 maxPerChar' subs) st)"

definition oneEditPass ::
  "PrototypeBuckets \<Rightarrow> int \<Rightarrow> int \<Rightarrow> jsstring list \<Rightarrow> genState \<Rightarrow> bool \<times> genState" where
  "oneEditPass protoBuckets maxPerChar' maxVariants' chars st =
     forEach (oneEditAt protoBuckets maxPerChar' maxVariants' chars) [0 ..< length chars] st"

text \<open>The 2-edit pass: the body for the pair \<open>(i, j)\<close>, the loop over \<open>j\<close>, the loop
  over \<open>i\<close>.\<close>

definition twoEditAt ::
  "PrototypeBuckets \<Rightarrow> int \<Rightarrow> int \<Rightarrow> jsstring list \<Rightarrow> ConfusableSubstitute list \<Rightarrow> nat \<Rightarrow> nat
     \<Rightarrow> genState \<Rightarrow> bool \<times> genState" where
  "twoEditAt protoBuckets maxPerChar' maxVariants' chars subsI i j st =
     (case protoBuckets (chars ! j) of
        None \<Rightarrow> (True, st)
      | Some subsJ \<Rightarrow>
          let topI = slice0 (min maxPerChar' 5) subsI;
              topJ = slice0 (min maxPerChar' 5) subsJ
          in forEach (\<lambda>subI.
                forEach (\<lambda>subJ.
                   tryAdd maxVariants' (chars[i := cs_char subI, j := cs_char subJ])
                     [makeSubstitution i (chars ! i) subI, makeSubstitution j (chars ! j) subJ])
                  topJ)
               topI st)"

definition twoEditFrom ::
  "PrototypeBuckets \<Rightarrow> int \<Rightarrow> int \<Rightarrow> jsstring list \<Rightarrow> nat \<Rightarrow> genState \<Rightarrow> bool \<times> genState" where
  "twoEditFrom protoBuckets maxPerChar' maxVariants' chars i st =
     (case protoBuckets (chars ! i) of
        None \<Rightarrow> (True, st)
      | Some subsI \<Rightarrow>
          forEach (twoEditAt protoBuckets maxPerChar' maxVariants' chars subsI i)
            [i + 1 ..< length chars] st)"

definition twoEditPass ::
  "PrototypeBuckets \<Rightarrow> int \<Rightarrow> int \<Rightarrow> jsstring list \<Rightarrow> genState \<Rightarrow> bool \<times> genState" where
  "twoEditPass protoBuckets maxPerChar' maxVariants' chars st =
     forEach (twoEditFrom protoBuckets maxPerChar' maxVariants' chars)
       [0 ..< length chars - 1] st"

text \<open>\<^verbatim>\<open>buckets ?? buildPrototypeBuckets({...})\<close>.\<close>

definition bucketsOrBuild :: "env \<Rightarrow> GenerateOptions \<Rightarrow> PrototypeBuckets option \<Rightarrow> PrototypeBuckets" where
  "bucketsOrBuild e options buckets =
     (case buckets of
        Some b \<Rightarrow> b
      | None \<Rightarrow>
          buildPrototypeBuckets e
            \<lparr>bo_includeNonPvalid = go_includeNonPvalid options,
             bo_maxPerChar = Some (orDefault (go_maxPerChar options) 10),
             bo_useMaxDanger = Some (orDefault (go_useMaxDanger options) False)\<rparr>)"

definition generateVariants ::
  "env \<Rightarrow> jsstring \<Rightarrow> GenerateOptions \<Rightarrow> PrototypeBuckets option \<Rightarrow> RawVariant list" where
  "generateVariants e label' options buckets =
     (let maxEdits' = orDefault (go_maxEdits options) 2;
          maxPerChar' = orDefault (go_maxPerChar options) 10;
          maxVariants' = orDefault (go_maxVariants options) 5000;
          useMaxDanger' = orDefault (go_useMaxDanger options) False;
          protoBuckets = bucketsOrBuild e options buckets;
          chars = codePoints (toLowerCase e label');
          scoreKey = (if useMaxDanger' then dangerKey else stableDangerKey)
      in case oneEditPass protoBuckets maxPerChar' maxVariants' chars ({}, []) of
           (False, st1) \<Rightarrow> finalize (snd st1) scoreKey
         | (True, st1) \<Rightarrow>
             if maxEdits' \<ge> 2
             then finalize (snd (snd (twoEditPass protoBuckets maxPerChar' maxVariants' chars st1)))
                    scoreKey
             else finalize (snd st1) scoreKey)"

section \<open>Label/TLD splitting and TLD selection (tld.ts)\<close>

definition DEFAULT_TLDS :: "jsstring list" where
  "DEFAULT_TLDS = map js [''com'', ''net'', ''org'', ''io'']"

definition IDN_TLDS :: "(jsstring \<times> jsstring list) list" where
  "IDN_TLDS =
     [(js ''Cyrillic'', [js ''xn--p1ai'']),
      (js ''Arabic'', [js ''xn--mgbaam7a8h'']),
      (js ''Han'', [js ''xn--fiqs8s'', js ''xn--fiqz9s'']),
      (js ''Korean'', [js ''xn--3e0b707e'']),
      (js ''Thai'', [js ''xn--o3cw4h'']),
      (js ''Devanagari'', [js ''xn--h2brj9c''])]"

definition knownMultiPart :: "jsstring list" where
  "knownMultiPart =
     map js [''co.uk'', ''com.au'', ''co.nz'', ''co.jp'', ''com.br'', ''co.kr'', ''co.in'',
             ''com.mx'', ''com.cn'', ''org.uk'', ''net.au'', ''ac.uk'']"

text \<open>\<^verbatim>\<open>s.replace(/\.$/, "")\<close>: one dot at the very end is removed.\<close>

definition stripTrailingDot :: "jsstring \<Rightarrow> jsstring" where
  "stripTrailingDot s = (if s \<noteq> [] \<and> last s = 0x2E then butlast s else s)"

definition splitDomain :: "env \<Rightarrow> jsstring \<Rightarrow> jsstring \<times> jsstring" where
  "splitDomain e domain' =
     (let lower = stripTrailingDot (toLowerCase e domain')
      in case find (\<lambda>tld. endsWith lower (js ''.'' @ tld)) knownMultiPart of
           Some tld \<Rightarrow> (take (length lower - (length tld + 1)) lower, tld)
         | None \<Rightarrow>
             let lastDot = lastIndexOf lower 0x2E
             in if lastDot = -1 then (lower, js ''com'')
                else (take (nat lastDot) lower, drop (nat (lastDot + 1)) lower))"

text \<open>A \<^verbatim>\<open>Set\<close> of strings in insertion order.\<close>

definition setAdd :: "jsstring list \<Rightarrow> jsstring \<Rightarrow> jsstring list" where
  "setAdd xs x = (if x \<in> set xs then xs else xs @ [x])"

definition generateTldVariants :: "env \<Rightarrow> jsstring \<Rightarrow> PrototypeBuckets option \<Rightarrow> jsstring list" where
  "generateTldVariants e tld buckets =
     (let protoBuckets =
            (case buckets of
               Some b \<Rightarrow> b
             | None \<Rightarrow>
                 buildPrototypeBuckets e
                   \<lparr>bo_includeNonPvalid = None, bo_maxPerChar = Some 5, bo_useMaxDanger = None\<rparr>);
          chars = codePoints (toLowerCase e tld)
      in foldl (\<lambda>variants' i.
                  case protoBuckets (chars ! i) of
                    None \<Rightarrow> variants'
                  | Some subs \<Rightarrow>
                      foldl (\<lambda>vs sub. setAdd vs (join (chars[i := cs_char sub])))
                        variants' (slice0 5 subs))
           [] [0 ..< length chars])"

definition getTargetTlds ::
  "env \<Rightarrow> jsstring list option \<Rightarrow> bool option \<Rightarrow> jsstring list option \<Rightarrow> jsstring list" where
  "getTargetTlds e baseTlds tldVariants' scripts =
     (let tlds0 = foldl setAdd [] (orDefault baseTlds DEFAULT_TLDS);
          tlds1 =
            (case scripts of
               None \<Rightarrow> tlds0
             | Some ss \<Rightarrow>
                 foldl (\<lambda>tlds' script'.
                          case map_of IDN_TLDS script' of
                            None \<Rightarrow> tlds'
                          | Some idnTlds \<Rightarrow> foldl setAdd tlds' idnTlds)
                   tlds0 ss)
      in if orDefault tldVariants' False
         then foldl (\<lambda>tlds' tld. foldl setAdd tlds' (generateTldVariants e tld None)) tlds1 tlds1
         else tlds1)"

section \<open>Bootstring decoder (reverse-scan.ts)\<close>

text \<open>\<^verbatim>\<open>String.fromCodePoint(n)\<close> raises a RangeError outside \<open>0..0x10FFFF\<close>; this is
  the only operation of the decoder that can throw.\<close>

datatype error = RangeError

definition fromCodePoint :: "int \<Rightarrow> error + jsstring" where
  "fromCodePoint n =
     (if n < 0 \<or> n > 0x10FFFF then Inl RangeError
      else if n \<le> 0xFFFF then Inr [word_of_int n]
      else Inr [word_of_int (0xD800 + (n - 0x10000) div 0x400),
                word_of_int (0xDC00 + (n - 0x10000) mod 0x400)])"

definition BASE :: int where "BASE = 36"
definition TMIN :: int where "TMIN = 1"
definition TMAX :: int where "TMAX = 26"
definition SKEW :: int where "SKEW = 38"
definition DAMP :: int where "DAMP = 700"
definition INITIAL_BIAS :: int where "INITIAL_BIAS = 72"
definition INITIAL_N :: int where "INITIAL_N = 128"

text \<open>The \<^verbatim>\<open>while\<close> loop of \<^verbatim>\<open>adapt\<close>, on the pair \<open>(delta, k)\<close>.\<close>

function adaptLoop :: "int \<Rightarrow> int \<Rightarrow> int \<times> int" where
  "adaptLoop delta k =
     (if delta > ((BASE - TMIN) * TMAX) div 2
      then adaptLoop (delta div (BASE - TMIN)) (k + BASE)
      else (delta, k))"
  by pat_completeness auto
termination
  by (relation "measure (\<lambda>(delta, k). nat delta)")
     (auto simp: BASE_def TMIN_def TMAX_def)

declare adaptLoop.simps [simp del]

definition adapt :: "int \<Rightarrow> int \<Rightarrow> bool \<Rightarrow> int" where
  "adapt delta numPoints first =
     (let delta1 = (if first then delta div DAMP else delta div 2);
          delta2 = delta1 + delta1 div numPoints;
          (delta3, k) = adaptLoop delta2 0
      in k + ((BASE - TMIN + 1) * delta3) div (delta3 + SKEW))"

definition digitValue :: "16 word \<Rightarrow> int" where
  "digitValue c =
     (let cp = uint c in
      if cp \<ge> 0x30 \<and> cp \<le> 0x39 then cp - 0x30 + 26
      else if cp \<ge> 0x41 \<and> cp \<le> 0x5a then cp - 0x41
      else if cp \<ge> 0x61 \<and> cp \<le> 0x7a then cp - 0x61
      else BASE)"

text \<open>The inner \<^verbatim>\<open>while (true)\<close> loop: it reads the digits of one delta from the rest of
  the input (\<^verbatim>\<open>encoded\<close> from \<^verbatim>\<open>pos\<close> on) and returns the new \<open>i\<close> with the input
  left over.\<close>

fun readDigits :: "int \<Rightarrow> int \<Rightarrow> int \<Rightarrow> int \<Rightarrow> jsstring \<Rightarrow> int \<times> jsstring" where
  "readDigits bias i w k [] = (i, [])"
| "readDigits bias i w k (c # rest) =
     (let digit = digitValue c in
      if digit \<ge> BASE then (i, rest)
      else
        let i' = i + digit * w;
            t = (if k \<le> bias then TMIN else if k \<ge> bias + TMAX then TMAX else k - bias)
        in if digit < t then (i', rest)
           else readDigits bias i' (w * (BASE - t)) (k + BASE) rest)"

lemma readDigits_length_le:
  "length (snd (readDigits bias i w k rest)) \<le> length rest"
proof (induction rest arbitrary: i w k)
  case Nil
  show ?case by simp
next
  case (Cons c rest)
  have step: "length (snd (readDigits bias i' w' k' rest)) \<le> Suc (length rest)" for i' w' k'
    using Cons.IH [of i' w' k'] by simp
  show ?case
    by (simp add: Let_def step)
qed

lemma readDigits_consumes:
  "rest \<noteq> [] \<Longrightarrow> (i', rest') = readDigits bias i w k rest \<Longrightarrow> length rest' < length rest"
proof -
  assume ne: "rest \<noteq> []" and eq: "(i', rest') = readDigits bias i w k rest"
  from ne obtain c cs where rest: "rest = c # cs"
    by (cases rest) auto
  have le: "length (snd (readDigits bias a b d cs)) < Suc (length cs)" for a b d
    using readDigits_length_le [of bias a b d cs] by simp
  have "length (snd (readDigits bias i w k (c # cs))) < Suc (length cs)"
    by (simp add: Let_def le)
  with eq rest show ?thesis
    by (metis length_Cons snd_conv)
qed

text \<open>The outer \<^verbatim>\<open>while (pos < encoded.length)\<close> loop; \<^verbatim>\<open>output.splice(i, 0, ch)\<close>
  inserts the decoded character at index \<open>i\<close>.\<close>

function decodeLoop ::
  "int \<Rightarrow> int \<Rightarrow> int \<Rightarrow> jsstring list \<Rightarrow> jsstring \<Rightarrow> error + jsstring list" where
  "decodeLoop n bias i output rest =
     (if rest = [] then Inr output
      else
        case readDigits bias i 1 BASE rest of
          (i1, rest') \<Rightarrow>
            let len = int (length output) + 1;
                bias' = adapt (i1 - i) len (i = 0);
                n' = n + i1 div len;
                i2 = i1 mod len
            in case fromCodePoint n' of
                 Inl e \<Rightarrow> Inl e
               | Inr ch \<Rightarrow>
                   decodeLoop n' bias' (i2 + 1)
                     (take (nat i2) output @ [ch] @ drop (nat i2) output) rest')"
  by pat_completeness auto
termination
  by (relation "measure (\<lambda>(n, bias, i, output, rest). length rest)")
     (auto intro: readDigits_consumes)

declare decodeLoop.simps [simp del]

definition decodePunycodeLabel :: "jsstring \<Rightarrow> error + jsstring" where
  "decodePunycodeLabel input =
     (if \<not> startsWith input (js ''xn--'') then Inr input
      else
        let encoded = drop 4 input;
            lastDelim = lastIndexOf encoded 0x2D;
            basicChars = (if lastDelim > 0 then codePoints (take (nat lastDelim) encoded) else []);
            pos = (if lastDelim > 0 then lastDelim + 1 else 0)
        in case decodeLoop INITIAL_N INITIAL_BIAS 0 basicChars (drop (nat pos) encoded) of
             Inl e \<Rightarrow> Inl e
           | Inr output \<Rightarrow> Inr (join output))"

text \<open>\<^verbatim>\<open>fromPunycode\<close>: split at dots, decode each label, join with dots.\<close>

fun splitOn :: "16 word \<Rightarrow> jsstring \<Rightarrow> jsstring \<Rightarrow> jsstring list" where
  "splitOn sep acc [] = [acc]"
| "splitOn sep acc (u # us) =
     (if u = sep then acc # splitOn sep [] us else splitOn sep (acc @ [u]) us)"

fun joinWith :: "jsstring \<Rightarrow> jsstring list \<Rightarrow> jsstring" where
  "joinWith sep [] = []"
| "joinWith sep [p] = p"
| "joinWith sep (p # q # ps) = p @ sep @ joinWith sep (q # ps)"

fun mapDecode :: "jsstring list \<Rightarrow> error + jsstring list" where
  "mapDecode [] = Inr []"
| "mapDecode (l # ls) =
     (case decodePunycodeLabel l of
        Inl e \<Rightarrow> Inl e
      | Inr d \<Rightarrow> (case mapDecode ls of Inl e \<Rightarrow> Inl e | Inr ds \<Rightarrow> Inr (d # ds)))"

definition fromPunycode :: "jsstring \<Rightarrow> error + jsstring" where
  "fromPunycode domain =
     (case mapDecode (splitOn 0x2E [] domain) of
        Inl e \<Rightarrow> Inl e
      | Inr labels \<Rightarrow> Inr (joinWith (js ''.'') labels))"

section \<open>Danger scorer (score.ts)\<close>

definition computeDangerScore :: "Substitution list \<Rightarrow> ScoreOptions \<Rightarrow> real" where
  "computeDangerScore subs options =
     (if length subs = 0 then 0
      else
        let useMax = orDefault (so_useMaxDanger options) False;
            scoreKey = (if useMax then dangerKey else stableDangerKey);
            product = foldl (\<lambda>p sub. p * scoreOf scoreKey sub) 1 subs;
            editPenalty = 1 - 0.1 * (real (length subs) - 1);
            score = product * editPenalty;
            scripts = set (map script subs);
            score' = (if card scripts > 1 then score * 0.9 else score)
        in max 0 (min 1 score'))"

text \<open>The loop \<^verbatim>\<open>for (const sub of substitutions)\<close> of the font search: the product of
  the font's \<^verbatim>\<open>danger\<close> values, \<open>None\<close> when a substitution has no entry
  (\<^verbatim>\<open>allFound = false; break\<close>).\<close>

fun fontProduct :: "(Substitution \<Rightarrow> ConfusableWeight option) \<Rightarrow> Substitution list \<Rightarrow> real \<Rightarrow> real option" where
  "fontProduct lookup [] p = Some p"
| "fontProduct lookup (sub # subs) p =
     (case lookup sub of
        Some w \<Rightarrow> fontProduct lookup subs (p * w_danger w)
      | None \<Rightarrow> None)"

definition findBestFont :: "env \<Rightarrow> Substitution list \<Rightarrow> (jsstring \<times> real) option" where
  "findBestFont e subs =
     (case foldl (\<lambda>best entry.
                    case (best, entry) of ((bestFont, bestSsim), (fontName, weights)) \<Rightarrow>
                      (case fontProduct (\<lambda>sub. lookupWeight4 e weights (replacement sub) (original sub))
                              subs 1 of
                         Some p \<Rightarrow> if p > bestSsim then (Some fontName, p) else best
                       | None \<Rightarrow> best))
             (None, 0) (FONT_SPECIFIC_WEIGHTS e) of
        (Some f, ssim) \<Rightarrow> if f \<noteq> [] then Some (f, ssim) else None
      | (None, ssim) \<Rightarrow> None)"

definition toPunycode :: "env \<Rightarrow> jsstring \<Rightarrow> jsstring" where
  "toPunycode e domain' =
     (case urlHostname e (js ''http://'' @ domain') of
        Some hostname \<Rightarrow> hostname
      | None \<Rightarrow> domain')"

definition scoreVariant :: "env \<Rightarrow> jsstring \<Rightarrow> ScoreOptions \<Rightarrow> RawVariant \<Rightarrow> DomainVariant" where
  "scoreVariant e tld options raw =
     (let domain' = rv_label raw @ js ''.'' @ tld;
          dangerScore = computeDangerScore (rv_substitutions raw) options;
          best =
            (case so_font options of
               Some f \<Rightarrow>
                 if f \<noteq> [] then
                   (case map_of (FONT_SPECIFIC_WEIGHTS e) f of
                      Some fontWeights \<Rightarrow>
                        (case fontProduct
                                (\<lambda>sub. orElse (weightAt fontWeights (replacement sub) (original sub))
                                               (weightAt fontWeights (original sub) (replacement sub)))
                                (rv_substitutions raw) 1 of
                           Some p \<Rightarrow> Some (f, p)
                         | None \<Rightarrow> None)
                    | None \<Rightarrow> None)
                 else findBestFont e (rv_substitutions raw)
             | None \<Rightarrow> findBestFont e (rv_substitutions raw))
      in \<lparr>dv_domain = domain',
          dv_dangerScore = dangerScore,
          dv_editCount = length (rv_substitutions raw),
          dv_substitutions = rv_substitutions raw,
          dv_bestFont = map_option fst best,
          dv_bestFontSsim = map_option snd best,
          dv_punycode = toPunycode e domain',
          dv_dns = None\<rparr>)"

definition scoreVariants :: "env \<Rightarrow> RawVariant list \<Rightarrow> jsstring \<Rightarrow> ScoreOptions \<Rightarrow> DomainVariant list" where
  "scoreVariants e rawVariants tld options = map (scoreVariant e tld options) rawVariants"

section \<open>Resolver (resolve.ts) and the scan pipeline (scan.ts)\<close>

text \<open>The resolver's \<^verbatim>\<open>resolve\<close>, given the records that the four lookups return. Its
  semaphore and timeouts decide when a lookup runs and whether it returns records, not
  what is computed from them.\<close>

definition resolveDomain :: "env \<Rightarrow> jsstring \<Rightarrow> DnsResult" where
  "resolveDomain e domain' =
     (case dnsLookup e domain' of (a', aaaa', mx', ns') \<Rightarrow>
        let registered' = (length a' > 0 \<or> length aaaa' > 0 \<or> length ns' > 0);
            hasMx' = (length mx' > 0);
            threatLevel' = (if hasMx' then active else if registered' then parked else unregistered)
        in \<lparr>dns_registered = registered', dns_a = a', dns_aaaa = aaaa', dns_mx = mx', dns_ns = ns',
            dns_hasMx = hasMx', dns_threatLevel = threatLevel'\<rparr>)"

text \<open>The comparator of the re-sort after DNS resolution.\<close>

definition resolvedOrder :: "DomainVariant \<Rightarrow> DomainVariant \<Rightarrow> real" where
  "resolvedOrder x y =
     (let aRegistered = (if (case dv_dns x of Some d \<Rightarrow> dns_registered d | None \<Rightarrow> False) then 1 else 0);
          bRegistered = (if (case dv_dns y of Some d \<Rightarrow> dns_registered d | None \<Rightarrow> False) then 1 else 0);
          aActive = (if map_option dns_threatLevel (dv_dns x) = Some active then 1 else 0);
          bActive = (if map_option dns_threatLevel (dv_dns y) = Some active then 1 else 0)
      in if aRegistered \<noteq> bRegistered then bRegistered - aRegistered
         else if aActive \<noteq> bActive then bActive - aActive
         else dv_dangerScore y - dv_dangerScore x)"

definition scan :: "env \<Rightarrow> jsstring \<Rightarrow> ScanOptions \<Rightarrow> ScanResult" where
  "scan e domain' options =
     (case splitDomain e domain' of (label', tld) \<Rightarrow>
        let top' = orDefault (sc_top options) 20;
            threshold' = orDefault (sc_threshold options) 0.0;
            buckets =
              buildPrototypeBuckets e
                \<lparr>bo_includeNonPvalid = sc_includeNonPvalid options,
                 bo_maxPerChar = sc_maxPerChar options,
                 bo_useMaxDanger = sc_useMaxDanger options\<rparr>;
            rawVariants =
              generateVariants e label'
                \<lparr>go_maxEdits = sc_maxEdits options,
                 go_maxPerChar = sc_maxPerChar options,
                 go_maxVariants = sc_maxVariants options,
                 go_includeNonPvalid = sc_includeNonPvalid options,
                 go_useMaxDanger = sc_useMaxDanger options\<rparr>
                (Some buckets);
            totalGenerated' = length rawVariants;
            scripts = foldl setAdd [] (concat (map (\<lambda>v. map script (rv_substitutions v)) rawVariants));
            tlds' = getTargetTlds e (Some (orDefault (sc_tlds options) [tld]))
                      (sc_tldVariants options) (Some scripts);
            allVariants =
              concat (map (\<lambda>targetTld.
                             scoreVariants e rawVariants targetTld
                               \<lparr>so_useMaxDanger = sc_useMaxDanger options, so_font = sc_font options\<rparr>)
                        tlds');
            filtered = filter (\<lambda>v. dv_dangerScore v \<ge> threshold') allVariants;
            sorted' = sortBy (\<lambda>x y. dv_dangerScore y - dv_dangerScore x) filtered;
            capped = slice0 top' sorted';
            final =
              (if orDefault (sc_resolve options) False
               then sortBy resolvedOrder
                      (map (\<lambda>v. v\<lparr>dv_dns := Some (resolveDomain e (dv_domain v))\<rparr>) capped)
               else capped)
        in \<lparr>sr_original = domain', sr_label = label', sr_tld = tld,
            sr_totalGenerated = totalGenerated', sr_variants = final\<rparr>)"

section \<open>Reverse resolver (reverse-scan.ts)\<close>

text \<open>\<^verbatim>\<open>/^[a-z0-9]$/.test(s)\<close>.\<close>

definition isLowerAlnum1 :: "jsstring \<Rightarrow> bool" where
  "isLowerAlnum1 s =
     (case s of
        [u] \<Rightarrow> (0x61 \<le> u \<and> u \<le> 0x7A) \<or> (0x30 \<le> u \<and> u \<le> 0x39)
      | _ \<Rightarrow> False)"

text \<open>The loop over \<^verbatim>\<open>chars\<close>, from index \<open>i\<close> on, with the arrays
  \<^verbatim>\<open>substitutions\<close> and \<^verbatim>\<open>canonicalChars\<close> built so far.\<close>

fun scanChars ::
  "env \<Rightarrow> nat \<Rightarrow> jsstring list \<Rightarrow> Substitution list \<times> jsstring list
     \<Rightarrow> Substitution list \<times> jsstring list" where
  "scanChars e i [] acc = acc"
| "scanChars e i (ch # rest) (subs, canonicalChars) =
     (case map_of (CONFUSABLE_MAP_FULL e) ch of
        Some ascii \<Rightarrow>
          if ascii \<noteq> [] \<and> isLowerAlnum1 ascii \<and> ch \<noteq> ascii then
            let w = lookupWeight4 e (CONFUSABLE_WEIGHTS e) ch ascii
            in scanChars e (i + 1) rest
                 (subs @ [\<lparr>position = i, original = ascii, replacement = ch,
                           codepoint = toCodepoint ch, script = getScript e ch,
                           danger = (case w of None \<Rightarrow> 0.5 | Some x \<Rightarrow> w_danger x),
                           stableDanger = (case w of None \<Rightarrow> 0.5 | Some x \<Rightarrow> w_stableDanger x),
                           idnaPvalid = (case w of None \<Rightarrow> False
                                         | Some x \<Rightarrow> orDefault (w_idnaPvalid x) False)\<rparr>],
                  canonicalChars @ [ascii])
          else scanChars e (i + 1) rest (subs, canonicalChars @ [ch])
      | None \<Rightarrow> scanChars e (i + 1) rest (subs, canonicalChars @ [ch]))"

definition reverseScan :: "env \<Rightarrow> jsstring \<Rightarrow> error + ReverseScanResult" where
  "reverseScan e domain' =
     (case splitDomain e domain' of (label', tld) \<Rightarrow>
        let punycode' = toPunycode e domain'
        in case (if startsWith label' (js ''xn--'') then decodePunycodeLabel label'
                 else Inr label') of
             Inl err \<Rightarrow> Inl err
           | Inr decodedLabel \<Rightarrow>
               (case scanChars e 0 (codePoints decodedLabel) ([], []) of
                  (subs, canonicalChars) \<Rightarrow>
                    let canonicalLabel = join canonicalChars;
                        canonicalDomain = canonicalLabel @ js ''.'' @ tld;
                        similarity' =
                          (if length subs > 0
                           then foldl (\<lambda>sum' s. sum' + stableDanger s) 0 subs / real (length subs)
                           else 0);
                        impersonates' =
                          (if length subs > 0
                           then [\<lparr>im_domain = canonicalDomain, im_similarity = similarity',
                                  im_substitutions = subs\<rparr>]
                           else [])
                    in Inr \<lparr>rs_domain = domain', rs_punycode = punycode',
                            rs_impersonates = impersonates'\<rparr>))"


section \<open>Notions used to state the properties\<close>

definition clamp01 :: "real \<Rightarrow> real" where
  "clamp01 x = (if x < 0 then 0 else if 1 < x then 1 else x)"

text \<open>A string that is one whole code point: a unit that is not a surrogate, or a
  surrogate pair. (A lone surrogate can fuse with its neighbour when strings are joined.)\<close>

definition isScalar :: "jsstring \<Rightarrow> bool" where
  "isScalar s =
     (case s of
        [u] \<Rightarrow> \<not> isHighSurrogate u \<and> \<not> isLowSurrogate u
      | [h, l] \<Rightarrow> isHighSurrogate h \<and> isLowSurrogate l
      | _ \<Rightarrow> False)"

text \<open>The shape of the result of \<open>codePoints\<close>: each element is one unit or a surrogate
  pair, and a lone high surrogate is never followed by a lone low surrogate.\<close>

definition okCp :: "jsstring \<Rightarrow> bool" where
  "okCp s = (case s of [u] \<Rightarrow> True | [h, l] \<Rightarrow> isHighSurrogate h \<and> isLowSurrogate l | _ \<Rightarrow> False)"

definition merges :: "jsstring \<Rightarrow> jsstring \<Rightarrow> bool" where
  "merges x y = (case (x, y) of ([h], [l]) \<Rightarrow> isHighSurrogate h \<and> isLowSurrogate l | _ \<Rightarrow> False)"

definition okSeq :: "jsstring list \<Rightarrow> bool" where
  "okSeq cs = (list_all okCp cs \<and> successively (\<lambda>x y. \<not> merges x y) cs)"

text \<open>The number of positions (counted in code points) at which two strings of the same
  length differ; \<open>None\<close> when the lengths differ.\<close>

definition differingPositions :: "jsstring \<Rightarrow> jsstring \<Rightarrow> nat option" where
  "differingPositions s t =
     (let cs = codePoints s; ct = codePoints t
      in if length cs = length ct
         then Some (length (filter (\<lambda>(x, y). x \<noteq> y) (zip cs ct)))
         else None)"

text \<open>Buckets in which every substitute is one whole code point other than the bucket's
  own character.\<close>

definition wellFormedBuckets :: "PrototypeBuckets \<Rightarrow> bool" where
  "wellFormedBuckets b =
     (\<forall>proto subs. b proto = Some subs \<longrightarrow>
        (\<forall>s \<in> set subs. isScalar (cs_char s) \<and> cs_char s \<noteq> proto))"

text \<open>The candidates of the generator in enumeration order: those of position \<open>i\<close>, those
  of the pair \<open>(i, j)\<close>, and those of the two passes.\<close>

definition oneEditCandidates :: "PrototypeBuckets \<Rightarrow> int \<Rightarrow> jsstring list \<Rightarrow> nat \<Rightarrow> RawVariant list" where
  "oneEditCandidates protoBuckets maxPerChar' chars i =
     (case protoBuckets (chars ! i) of
        None \<Rightarrow> []
      | Some subs \<Rightarrow>
          map (\<lambda>sub. \<lparr>rv_label = join (chars[i := cs_char sub]),
                      rv_substitutions = [makeSubstitution i (chars ! i) sub]\<rparr>)
            (slice0 maxPerChar' subs))"

definition twoEditCandidates ::
  "PrototypeBuckets \<Rightarrow> int \<Rightarrow> jsstring list \<Rightarrow> nat \<Rightarrow> nat \<Rightarrow> RawVariant list" where
  "twoEditCandidates protoBuckets maxPerChar' chars i j =
     (case (protoBuckets (chars ! i), protoBuckets (chars ! j)) of
        (Some subsI, Some subsJ) \<Rightarrow>
          concat (map (\<lambda>subI.
                    map (\<lambda>subJ.
                           \<lparr>rv_label = join (chars[i := cs_char subI, j := cs_char subJ]),
                            rv_substitutions = [makeSubstitution i (chars ! i) subI,
                                                makeSubstitution j (chars ! j) subJ]\<rparr>)
                      (slice0 (min maxPerChar' 5) subsJ))
                  (slice0 (min maxPerChar' 5) subsI))
      | _ \<Rightarrow> [])"

definition allOneEdit :: "PrototypeBuckets \<Rightarrow> int \<Rightarrow> jsstring list \<Rightarrow> RawVariant list" where
  "allOneEdit protoBuckets maxPerChar' chars =
     concat (map (oneEditCandidates protoBuckets maxPerChar' chars) [0 ..< length chars])"

definition allTwoEdit :: "PrototypeBuckets \<Rightarrow> int \<Rightarrow> jsstring list \<Rightarrow> RawVariant list" where
  "allTwoEdit protoBuckets maxPerChar' chars =
     concat (map (\<lambda>i. concat (map (twoEditCandidates protoBuckets maxPerChar' chars i)
                                  [i + 1 ..< length chars]))
               [0 ..< length chars - 1])"

text \<open>The directed edges of the raw graph, and the facts that each \<^verbatim>\<open>Map\<close> entry is
  stored under its own character and that keys are not repeated.\<close>

definition edges :: "RawBuckets \<Rightarrow> (jsstring \<times> jsstring) set" where
  "edges raw = {(x, k). \<exists>m. raw x = Some m \<and> k \<in> fst ` set m}"

definition keyed :: "RawBuckets \<Rightarrow> bool" where
  "keyed raw = (\<forall>x m. raw x = Some m \<longrightarrow> (\<forall>(k, s) \<in> set m. cs_char s = k))"

definition distinctKeys :: "RawBuckets \<Rightarrow> bool" where
  "distinctKeys raw = (\<forall>x m. raw x = Some m \<longrightarrow> distinct (map fst m))"

text \<open>Every bucket entry has an inverse entry.\<close>

definition symmetricBuckets :: "PrototypeBuckets \<Rightarrow> bool" where
  "symmetricBuckets b =
     (\<forall>x bx s. b x = Some bx \<and> s \<in> set bx \<longrightarrow>
        (\<exists>bs t. b (cs_char s) = Some bs \<and> t \<in> set bs \<and> cs_char t = x))"

text \<open>Every key of the weight table is its own lower-case form.\<close>

definition lowerCaseKeys :: "env \<Rightarrow> bool" where
  "lowerCaseKeys e =
     (\<forall>(keyA, targets) \<in> set (CONFUSABLE_WEIGHTS e).
        toLowerCase e keyA = keyA \<and> (\<forall>(keyB, w) \<in> set targets. toLowerCase e keyB = keyB))"

text \<open>All characters that occur in the two tables.\<close>

definition tableChars :: "env \<Rightarrow> jsstring list" where
  "tableChars e =
     concat (map (\<lambda>(char, prototype). [char, prototype]) (CONFUSABLE_MAP_FULL e)) @
     concat (map (\<lambda>(keyA, targets). keyA # map fst targets) (CONFUSABLE_WEIGHTS e))"

text \<open>The tables relate single whole code points.\<close>

definition scalarTables :: "env \<Rightarrow> bool" where
  "scalarTables e = (\<forall>c \<in> set (tableChars e). isScalar c)"

text \<open>The comparator of the bucket sort.\<close>

definition scoreCmp :: "ScoreKey \<Rightarrow> ConfusableSubstitute \<Rightarrow> ConfusableSubstitute \<Rightarrow> real" where
  "scoreCmp k x y = subScoreOf k y - subScoreOf k x"

text \<open>A 1-edit variant whose substitution is at position \<open>i\<close>.\<close>

definition isOneEditAt :: "nat \<Rightarrow> RawVariant \<Rightarrow> bool" where
  "isOneEditAt i v = (case rv_substitutions v of [s] \<Rightarrow> position s = i | _ \<Rightarrow> False)"


section \<open>Example environments\<close>

text \<open>Small tables and ASCII-only platform functions, for evaluating the model.\<close>

definition asciiLower :: "jsstring \<Rightarrow> jsstring" where
  "asciiLower s = map (\<lambda>u. if 0x41 \<le> u \<and> u \<le> 0x5A then u + 0x20 else u) s"

definition asciiUpper :: "jsstring \<Rightarrow> jsstring" where
  "asciiUpper s = map (\<lambda>u. if 0x61 \<le> u \<and> u \<le> 0x7A then u - 0x20 else u) s"

definition emptyEnv :: env where
  "emptyEnv =
     \<lparr>CONFUSABLE_MAP_FULL = [], CONFUSABLE_WEIGHTS = [], FONT_SPECIFIC_WEIGHTS = [],
      toLowerCase = asciiLower, toUpperCase = asciiUpper,
      scriptTest = (\<lambda>name ch. False),
      urlHostname = (\<lambda>s. None),
      dnsLookup = (\<lambda>d. ([], [], [], []))\<rparr>"

text \<open>The pair (a, U+0431) is listed twice, under the keys \<open>A\<close> and \<open>a\<close>, with
  different scores and flags.\<close>

definition flagEnv :: env where
  "flagEnv = emptyEnv\<lparr>CONFUSABLE_WEIGHTS :=
     [(js ''A'', [([0x431], \<lparr>w_danger = 0.9, w_stableDanger = 0.9, w_idnaPvalid = Some False\<rparr>)]),
      (js ''a'', [([0x431], \<lparr>w_danger = 0.5, w_stableDanger = 0.5, w_idnaPvalid = Some True\<rparr>)])]\<rparr>"


text \<open>A table with two look-alikes of \<open>a\<close> (U+0430, U+0251) and one of \<open>b\<close> (U+044C);
  only the domain with U+0251 is registered.\<close>

definition demoEnv :: env where
  "demoEnv = emptyEnv
     \<lparr>CONFUSABLE_MAP_FULL := [([0x430], js ''a'')],
      CONFUSABLE_WEIGHTS :=
        [(js ''a'', [([0x430], \<lparr>w_danger = 1, w_stableDanger = 0.9, w_idnaPvalid = Some True\<rparr>),
                     ([0x251], \<lparr>w_danger = 0.85, w_stableDanger = 0.8, w_idnaPvalid = Some True\<rparr>)]),
         (js ''b'', [([0x44C], \<lparr>w_danger = 0.7, w_stableDanger = 0.6, w_idnaPvalid = Some True\<rparr>)])],
      scriptTest := (\<lambda>name ch. (name = js ''Cyrillic'' \<and> (ch = [0x430] \<or> ch = [0x44C]))
                                  \<or> (name = js ''Latin'' \<and> (ch = [0x251] \<or> ch = js ''a'' \<or> ch = js ''b''))),
      dnsLookup := (\<lambda>d. if d = [0x251] @ js ''.com'' then ([js ''192.0.2.1''], [], [], [])
                          else ([], [], [], []))\<rparr>"

text \<open>The substitutes that the builder makes from this table.\<close>

definition subCyrA :: ConfusableSubstitute where
  "subCyrA = \<lparr>cs_char = [0x430], cs_codepoint = js ''U+0430'', cs_script = js ''Cyrillic'',
              cs_danger = 1, cs_stableDanger = 0.9, cs_idnaPvalid = True\<rparr>"

definition subAlpha :: ConfusableSubstitute where
  "subAlpha = \<lparr>cs_char = [0x251], cs_codepoint = js ''U+0251'', cs_script = js ''Latin'',
               cs_danger = 0.85, cs_stableDanger = 0.8, cs_idnaPvalid = True\<rparr>"

definition subSoft :: ConfusableSubstitute where
  "subSoft = \<lparr>cs_char = [0x44C], cs_codepoint = js ''U+044C'', cs_script = js ''Cyrillic'',
              cs_danger = 0.7, cs_stableDanger = 0.6, cs_idnaPvalid = True\<rparr>"

definition subLatinA :: "real \<Rightarrow> real \<Rightarrow> ConfusableSubstitute" where
  "subLatinA d sd = \<lparr>cs_char = js ''a'', cs_codepoint = js ''U+0061'', cs_script = js ''Latin'',
                     cs_danger = d, cs_stableDanger = sd, cs_idnaPvalid = True\<rparr>"

text \<open>Options: a generator run limited to one edit, and builder configurations.\<close>

definition genOpts1 :: GenerateOptions where
  "genOpts1 = \<lparr>go_maxEdits = Some 1, go_maxPerChar = None, go_maxVariants = None,
               go_includeNonPvalid = None, go_useMaxDanger = None\<rparr>"

definition genBuild :: BuildOptions where
  "genBuild = \<lparr>bo_includeNonPvalid = None, bo_maxPerChar = Some 10, bo_useMaxDanger = Some False\<rparr>"

definition buildAll :: BuildOptions where
  "buildAll = \<lparr>bo_includeNonPvalid = Some True, bo_maxPerChar = None, bo_useMaxDanger = None\<rparr>"

definition buildCap :: "int \<Rightarrow> BuildOptions" where
  "buildCap k = \<lparr>bo_includeNonPvalid = Some True, bo_maxPerChar = Some k, bo_useMaxDanger = None\<rparr>"

definition scanDefaults :: ScanOptions where
  "scanDefaults =
     \<lparr>sc_maxEdits = None, sc_maxPerChar = None, sc_maxVariants = None, sc_includeNonPvalid = None,
      sc_useMaxDanger = None, sc_font = None, sc_resolve = None, sc_top = None,
      sc_threshold = None, sc_tlds = None, sc_tldVariants = None, sc_concurrency = None,
      sc_timeout = None\<rparr>"

section \<open>Lemmas about sorting, slicing and loops\<close>

subsection \<open>Stable insertion sort\<close>

lemma mset_insertBy: "mset (insertBy cmp x ys) = add_mset x (mset ys)"
  by (induction ys) simp_all

lemma mset_sortBy: "mset (sortBy cmp xs) = mset xs"
  by (induction xs) (simp_all add: sortBy_def mset_insertBy)

lemma set_sortBy: "set (sortBy cmp xs) = set xs"
  using mset_sortBy [of cmp xs] by (metis set_mset_mset)

lemma length_sortBy: "length (sortBy cmp xs) = length xs"
  using mset_sortBy [of cmp xs] by (metis size_mset)

lemma filter_sortBy_length: "length (filter P (sortBy cmp xs)) = length (filter P xs)"
proof -
  have "mset (filter P (sortBy cmp xs)) = mset (filter P xs)"
    by (simp add: mset_sortBy)
  then show ?thesis by (metis size_mset)
qed

lemma set_insertBy: "set (insertBy cmp x ys) = insert x (set ys)"
  using mset_insertBy [of cmp x ys] by (metis set_mset_add_mset_insert set_mset_mset)

lemma sorted_insertBy:
  assumes total: "\<And>u v. cmp u v \<le> 0 \<or> cmp v u \<le> 0"
    and trans: "\<And>u v w. cmp u v \<le> 0 \<Longrightarrow> cmp v w \<le> 0 \<Longrightarrow> cmp u w \<le> 0"
    and sorted: "sorted_wrt (\<lambda>u v. cmp u v \<le> 0) ys"
  shows "sorted_wrt (\<lambda>u v. cmp u v \<le> 0) (insertBy cmp x ys)"
  using sorted
proof (induction ys)
  case Nil
  show ?case by simp
next
  case (Cons y ys)
  show ?case
  proof (cases "cmp x y \<le> 0")
    case True
    with Cons.prems trans show ?thesis by auto
  next
    case False
    with total have "cmp y x \<le> 0" by blast
    with False Cons show ?thesis by (auto simp: set_insertBy)
  qed
qed

lemma sorted_sortBy:
  assumes total: "\<And>u v. cmp u v \<le> 0 \<or> cmp v u \<le> 0"
    and trans: "\<And>u v w. cmp u v \<le> 0 \<Longrightarrow> cmp v w \<le> 0 \<Longrightarrow> cmp u w \<le> 0"
  shows "sorted_wrt (\<lambda>u v. cmp u v \<le> 0) (sortBy cmp xs)"
proof (induction xs)
  case Nil
  show ?case by (simp add: sortBy_def)
next
  case (Cons x xs)
  have "sortBy cmp (x # xs) = insertBy cmp x (sortBy cmp xs)"
    by (simp add: sortBy_def)
  with Cons sorted_insertBy [OF total trans] show ?case by simp
qed

lemma sorted_sortBy_key:
  "sorted_wrt (\<lambda>u v. key v \<le> key u) (sortBy (\<lambda>u v. key v - key u) xs)"
proof -
  have "sorted_wrt (\<lambda>u v. key v - key u \<le> 0) (sortBy (\<lambda>u v. key v - key u) xs)"
    by (rule sorted_sortBy) auto
  then show ?thesis by simp
qed

lemma sorted_wrt_take: "sorted_wrt R xs \<Longrightarrow> sorted_wrt R (take n xs)"
  by (metis append_take_drop_id sorted_wrt_append)

lemma slice0_prefix: "\<exists>n. slice0 k xs = take n xs"
  by (auto simp: slice0_def)

lemma length_slice0: "0 \<le> k \<Longrightarrow> int (length (slice0 k xs)) \<le> k"
  by (simp add: slice0_def)

lemma length_slice0_le: "length (slice0 k xs) \<le> length xs"
  by (auto simp: slice0_def)

lemma set_slice0: "set (slice0 k xs) \<subseteq> set xs"
  by (auto simp: slice0_def dest: in_set_takeD)

subsection \<open>Early-exit loops\<close>

lemma forEach_appends:
  assumes step: "\<And>x st b st'. x \<in> set xs \<Longrightarrow> body x st = (b, st') \<Longrightarrow>
                   \<exists>vs. snd st' = snd st @ vs \<and> subseq vs (cand x)"
  shows "forEach body xs st = (b, st') \<Longrightarrow>
           \<exists>vs. snd st' = snd st @ vs \<and> subseq vs (concat (map cand xs))"
  using step
proof (induction xs arbitrary: st)
  case Nil
  then show ?case by simp
next
  case (Cons x xs)
  obtain b1 st1 where b1: "body x st = (b1, st1)"
    by (cases "body x st") auto
  from Cons.prems(2) [OF _ b1] obtain vs1 where vs1: "snd st1 = snd st @ vs1" "subseq vs1 (cand x)"
    by auto
  show ?case
  proof (cases b1)
    case False
    with b1 Cons.prems(1) have "st' = st1" by simp
    moreover have "subseq vs1 (cand x @ concat (map cand xs))"
      using vs1(2) by (simp add: list_emb_append2 subseq_rev_drop_many) 
    ultimately show ?thesis using vs1 by auto
  next
    case True
    with b1 Cons.prems(1) have "forEach body xs st1 = (b, st')" by simp
    from Cons.IH [OF this] Cons.prems(2) obtain vs2 where
      vs2: "snd st' = snd st1 @ vs2" "subseq vs2 (concat (map cand xs))"
      by auto
    have "subseq (vs1 @ vs2) (cand x @ concat (map cand xs))"
      using vs1(2) vs2(2) by (rule list_emb_append_mono)
    with vs1 vs2 show ?thesis by auto
  qed
qed

section \<open>Lemmas about the generator\<close>

lemma tryAdd_appends:
  "tryAdd mv mutatedChars subs st = (b, st') \<Longrightarrow>
     \<exists>vs. snd st' = snd st @ vs \<and>
          subseq vs [\<lparr>rv_label = join mutatedChars, rv_substitutions = subs\<rparr>]"
  by (cases st) (auto simp: tryAdd_def Let_def split: if_splits)

lemma oneEditAt_appends:
  assumes "oneEditAt pb mpc mv chars i st = (b, st')"
  shows "\<exists>vs. snd st' = snd st @ vs \<and> subseq vs (oneEditCandidates pb mpc chars i)"
proof (cases "pb (chars ! i)")
  case None
  with assms show ?thesis
    by (simp add: oneEditAt_def oneEditCandidates_def)
next
  case (Some subs)
  with assms have loop:
    "forEach (\<lambda>sub. tryAdd mv (chars[i := cs_char sub]) [makeSubstitution i (chars ! i) sub])
       (slice0 mpc subs) st = (b, st')"
    by (simp add: oneEditAt_def Let_def)
  have "\<exists>vs. snd st' = snd st @ vs \<and>
          subseq vs (concat (map (\<lambda>sub. [\<lparr>rv_label = join (chars[i := cs_char sub]),
                                         rv_substitutions = [makeSubstitution i (chars ! i) sub]\<rparr>])
                              (slice0 mpc subs)))"
    by (rule forEach_appends [OF _ loop]) (rule tryAdd_appends)
  moreover have "concat (map (\<lambda>x. [f x]) xs) = map f xs" for f :: "'a \<Rightarrow> 'b" and xs
    by (induction xs) simp_all
  ultimately show ?thesis
    using Some by (simp add: oneEditCandidates_def)
qed

lemma oneEditPass_appends:
  assumes "oneEditPass pb mpc mv chars st = (b, st')"
  shows "\<exists>vs. snd st' = snd st @ vs \<and> subseq vs (allOneEdit pb mpc chars)"
  unfolding allOneEdit_def
  by (rule forEach_appends [OF _ assms [unfolded oneEditPass_def]]) (rule oneEditAt_appends)

lemma twoEditAt_appends:
  assumes "pb (chars ! i) = Some subsI" and "twoEditAt pb mpc mv chars subsI i j st = (b, st')"
  shows "\<exists>vs. snd st' = snd st @ vs \<and> subseq vs (twoEditCandidates pb mpc chars i j)"
proof (cases "pb (chars ! j)")
  case None
  with assms show ?thesis
    by (simp add: twoEditAt_def twoEditCandidates_def)
next
  case (Some subsJ)
  let ?cand = "\<lambda>subI subJ. \<lparr>rv_label = join (chars[i := cs_char subI, j := cs_char subJ]),
                             rv_substitutions = [makeSubstitution i (chars ! i) subI,
                                                 makeSubstitution j (chars ! j) subJ]\<rparr>"
  have flat: "concat (map (\<lambda>x. [f x]) xs) = map f xs" for f :: "ConfusableSubstitute \<Rightarrow> RawVariant" and xs
    by (induction xs) simp_all
  from assms Some have loop:
    "forEach (\<lambda>subI. forEach (\<lambda>subJ. tryAdd mv (chars[i := cs_char subI, j := cs_char subJ])
                 [makeSubstitution i (chars ! i) subI, makeSubstitution j (chars ! j) subJ])
               (slice0 (min mpc 5) subsJ))
       (slice0 (min mpc 5) subsI) st = (b, st')"
    by (simp add: twoEditAt_def Let_def)
  have inner: "\<exists>vs. snd s' = snd s @ vs \<and> subseq vs (map (?cand subI) (slice0 (min mpc 5) subsJ))"
    if "forEach (\<lambda>subJ. tryAdd mv (chars[i := cs_char subI, j := cs_char subJ])
                 [makeSubstitution i (chars ! i) subI, makeSubstitution j (chars ! j) subJ])
               (slice0 (min mpc 5) subsJ) s = (c, s')" for subI s c s'
  proof -
    have "\<exists>vs. snd s' = snd s @ vs \<and>
            subseq vs (concat (map (\<lambda>subJ. [?cand subI subJ]) (slice0 (min mpc 5) subsJ)))"
      by (rule forEach_appends [OF _ that]) (rule tryAdd_appends)
    then show ?thesis by (simp only: flat)
  qed
  have "\<exists>vs. snd st' = snd st @ vs \<and>
          subseq vs (concat (map (\<lambda>subI. map (?cand subI) (slice0 (min mpc 5) subsJ))
                              (slice0 (min mpc 5) subsI)))"
    by (rule forEach_appends [OF _ loop]) (rule inner)
  with assms(1) Some show ?thesis
    by (simp add: twoEditCandidates_def)
qed

lemma twoEditFrom_appends:
  assumes "twoEditFrom pb mpc mv chars i st = (b, st')"
  shows "\<exists>vs. snd st' = snd st @ vs \<and>
           subseq vs (concat (map (twoEditCandidates pb mpc chars i) [i + 1 ..< length chars]))"
proof (cases "pb (chars ! i)")
  case None
  with assms show ?thesis
    by (simp add: twoEditFrom_def)
next
  case (Some subsI)
  with assms have loop:
    "forEach (twoEditAt pb mpc mv chars subsI i) [i + 1 ..< length chars] st = (b, st')"
    by (simp add: twoEditFrom_def)
  have step: "\<exists>vs. snd s' = snd s @ vs \<and> subseq vs (twoEditCandidates pb mpc chars i j)"
    if "twoEditAt pb mpc mv chars subsI i j s = (c, s')" for j s c s'
    using twoEditAt_appends [where pb = pb and chars = chars and i = i and subsI = subsI] Some that
    by blast
  show ?thesis
    by (rule forEach_appends [OF _ loop]) (rule step)
qed

lemma twoEditPass_appends:
  assumes "twoEditPass pb mpc mv chars st = (b, st')"
  shows "\<exists>vs. snd st' = snd st @ vs \<and> subseq vs (allTwoEdit pb mpc chars)"
  unfolding allTwoEdit_def
  by (rule forEach_appends [OF _ assms [unfolded twoEditPass_def]]) (rule twoEditFrom_appends)

text \<open>The accepted variants, before the final sort.\<close>

lemma generateVariants_shape:
  "\<exists>vs1 vs2.
     generateVariants e label' options buckets =
       finalize (vs1 @ vs2)
         (if orDefault (go_useMaxDanger options) False then dangerKey else stableDangerKey) \<and>
     subseq vs1 (allOneEdit (bucketsOrBuild e options buckets)
                   (orDefault (go_maxPerChar options) 10) (codePoints (toLowerCase e label'))) \<and>
     subseq vs2 (allTwoEdit (bucketsOrBuild e options buckets)
                   (orDefault (go_maxPerChar options) 10) (codePoints (toLowerCase e label'))) \<and>
     (orDefault (go_maxEdits options) 2 < 2 \<longrightarrow> vs2 = [])"
proof -
  let ?pb = "bucketsOrBuild e options buckets"
  let ?mpc = "orDefault (go_maxPerChar options) 10"
  let ?mv = "orDefault (go_maxVariants options) 5000"
  let ?chars = "codePoints (toLowerCase e label')"
  let ?key = "if orDefault (go_useMaxDanger options) False then dangerKey else stableDangerKey"
  obtain b1 st1 where p1: "oneEditPass ?pb ?mpc ?mv ?chars ({}, []) = (b1, st1)"
    by (cases "oneEditPass ?pb ?mpc ?mv ?chars ({}, [])") auto
  from oneEditPass_appends [OF p1] have s1: "subseq (snd st1) (allOneEdit ?pb ?mpc ?chars)"
    by auto
  show ?thesis
  proof (cases "b1 \<and> orDefault (go_maxEdits options) 2 \<ge> 2")
    case False
    with p1 have "generateVariants e label' options buckets = finalize (snd st1 @ []) ?key"
      by (auto simp: generateVariants_def Let_def split: bool.splits)
    with s1 show ?thesis by (metis list_emb_Nil)
  next
    case True
    obtain b2 st2 where p2: "twoEditPass ?pb ?mpc ?mv ?chars st1 = (b2, st2)"
      by (cases "twoEditPass ?pb ?mpc ?mv ?chars st1") auto
    from twoEditPass_appends [OF p2] obtain vs2 where
      vs2: "snd st2 = snd st1 @ vs2" "subseq vs2 (allTwoEdit ?pb ?mpc ?chars)"
      by auto
    from True p1 p2 have "generateVariants e label' options buckets = finalize (snd st2) ?key"
      by (auto simp: generateVariants_def Let_def split: bool.splits)
    with vs2 s1 True show ?thesis by auto
  qed
qed

subsection \<open>Code points\<close>

lemma high_not_low: "isHighSurrogate u \<Longrightarrow> \<not> isLowSurrogate u"
  by (auto simp: isHighSurrogate_def isLowSurrogate_def word_le_nat_alt)

lemma codePoints_Cons_nonempty: "codePoints (v # rest) \<noteq> []"
  by (cases rest) auto

lemma okCp_cases:
  assumes "okCp x"
  obtains u where "x = [u]" | h l where "x = [h, l]" "isHighSurrogate h" "isLowSurrogate l"
  using assms by (auto simp: okCp_def split: list.splits)

lemma codePoints_hd:
  "codePoints (v # rest) = y # ys \<Longrightarrow> y = [v] \<or> (\<exists>w. y = [v, w] \<and> isHighSurrogate v)"
  by (cases rest) (auto split: if_splits)

lemma okSeq_codePoints: "okSeq (codePoints s)"
proof (induction s rule: codePoints.induct)
  case 1
  show ?case by (simp add: okSeq_def)
next
  case (2 u)
  show ?case by (simp add: okSeq_def okCp_def)
next
  case (3 u v rest)
  show ?case
  proof (cases "isHighSurrogate u \<and> isLowSurrogate v")
    case True
    with 3 have "okSeq (codePoints rest)" by simp
    with True show ?thesis
      by (auto simp: okSeq_def okCp_def merges_def successively_Cons)
  next
    case False
    with 3 have ih: "okSeq (codePoints (v # rest))" by simp
    obtain y ys where y: "codePoints (v # rest) = y # ys"
      using codePoints_Cons_nonempty [of v rest] by (cases "codePoints (v # rest)") auto
    from codePoints_hd [OF y] False have "\<not> merges [u] y"
      by (auto simp: merges_def dest: high_not_low)
    with False ih y show ?thesis
      by (auto simp: okSeq_def okCp_def successively_Cons)
  qed
qed

lemma concat_codePoints: "concat (codePoints s) = s"
  by (induction s rule: codePoints.induct) auto

lemma codePoints_concat: "okSeq cs \<Longrightarrow> codePoints (concat cs) = cs"
proof (induction cs)
  case Nil
  show ?case by simp
next
  case (Cons x cs)
  from Cons.prems have ok: "okCp x" and rest: "okSeq cs"
    by (auto simp: okSeq_def successively_Cons)
  from Cons.IH [OF rest] have ih: "codePoints (concat cs) = cs" .
  from ok show ?case
  proof (cases rule: okCp_cases)
    case (2 h l)
    with ih show ?thesis by simp
  next
    case (1 u)
    show ?thesis
    proof (cases cs)
      case Nil
      with 1 show ?thesis by simp
    next
      case (Cons y ys)
      from rest Cons have "okCp y" by (simp add: okSeq_def)
      then obtain v r where yv: "y = v # r" and low: "isLowSurrogate v \<Longrightarrow> y = [v]"
        by (cases rule: okCp_cases) (auto dest: high_not_low)
      from Cons.prems Cons 1 have "\<not> merges [u] y"
        by (simp add: okSeq_def)
      with low have nopair: "\<not> (isHighSurrogate u \<and> isLowSurrogate v)"
        by (auto simp: merges_def)
      have "concat (x # cs) = u # v # (r @ concat ys)"
        using 1 Cons yv by simp
      moreover have "concat cs = v # (r @ concat ys)"
        using Cons yv by simp
      ultimately show ?thesis
        using nopair ih 1 by simp
    qed
  qed
qed

lemma isScalar_okCp: "isScalar c \<Longrightarrow> okCp c"
  by (auto simp: isScalar_def okCp_def split: list.splits)

lemma isScalar_no_merge: "isScalar c \<Longrightarrow> \<not> merges c y \<and> \<not> merges x c"
  by (auto simp: isScalar_def merges_def split: list.splits)

lemma nth_update_cases: "cs[i := c] ! n = c \<or> cs[i := c] ! n = cs ! n"
  by (cases "i < length cs") (auto simp: nth_list_update list_update_beyond)

lemma okSeq_update:
  assumes "okSeq cs" "isScalar c"
  shows "okSeq (cs[i := c])"
proof -
  have "okCp (cs[i := c] ! n)" if "n < length cs" for n
    using nth_update_cases [of cs i c n] assms that
    by (auto simp: okSeq_def list_all_length isScalar_okCp)
  moreover have "\<not> merges (cs[i := c] ! n) (cs[i := c] ! Suc n)" if "Suc n < length cs" for n
    using nth_update_cases [of cs i c n] nth_update_cases [of cs i c "Suc n"] assms that
    by (auto simp: okSeq_def successively_conv_nth isScalar_no_merge)
  ultimately show ?thesis
    by (simp add: okSeq_def successively_conv_nth list_all_length)
qed

lemma codePoints_join_update:
  "isScalar c \<Longrightarrow> codePoints (join ((codePoints s)[i := c])) = (codePoints s)[i := c]"
  unfolding join_def by (intro codePoints_concat okSeq_update okSeq_codePoints)

lemma codePoints_join_update2:
  "isScalar c \<Longrightarrow> isScalar d \<Longrightarrow>
     codePoints (join ((codePoints s)[i := c, j := d])) = (codePoints s)[i := c, j := d]"
  unfolding join_def by (intro codePoints_concat okSeq_update okSeq_codePoints)

lemma diff_zip_same: "filter (\<lambda>(x, y). x \<noteq> y) (zip cs cs) = []"
  by (induction cs) simp_all

lemma diff_zip_update:
  "i < length cs \<Longrightarrow> c \<noteq> cs ! i \<Longrightarrow>
     length (filter (\<lambda>(x, y). x \<noteq> y) (zip cs (cs[i := c]))) = 1"
proof (induction cs arbitrary: i)
  case Nil
  then show ?case by simp
next
  case (Cons x cs)
  then show ?case
    by (cases i) (auto simp: diff_zip_same)
qed

lemma diff_zip_update2:
  "i < j \<Longrightarrow> j < length cs \<Longrightarrow> c \<noteq> cs ! i \<Longrightarrow> d \<noteq> cs ! j \<Longrightarrow>
     length (filter (\<lambda>(x, y). x \<noteq> y) (zip cs (cs[i := c, j := d]))) = 2"
proof (induction cs arbitrary: i j)
  case Nil
  then show ?case by simp
next
  case (Cons x cs)
  from Cons.prems obtain j' where j: "j = Suc j'" by (cases j) auto
  show ?case
  proof (cases i)
    case 0
    with Cons.prems j show ?thesis
      by (auto simp: diff_zip_update)
  next
    case (Suc i')
    with Cons.prems j Cons.IH [of i' j'] show ?thesis
      by auto
  qed
qed

lemma differingPositions_update:
  assumes "isScalar c" "i < length (codePoints s)" "c \<noteq> codePoints s ! i"
  shows "differingPositions s (join ((codePoints s)[i := c])) = Some 1"
  using assms by (simp add: differingPositions_def codePoints_join_update diff_zip_update)

lemma differingPositions_update2:
  assumes "isScalar c" "isScalar d" "i < j" "j < length (codePoints s)"
    "c \<noteq> codePoints s ! i" "d \<noteq> codePoints s ! j"
  shows "differingPositions s (join ((codePoints s)[i := c, j := d])) = Some 2"
  using assms by (simp add: differingPositions_def codePoints_join_update2 diff_zip_update2)

subsection \<open>The accepted variants\<close>

lemma in_oneEditCandidates:
  assumes "v \<in> set (oneEditCandidates pb mpc chars i)"
  shows "\<exists>subs sub. pb (chars ! i) = Some subs \<and> sub \<in> set subs \<and>
           v = \<lparr>rv_label = join (chars[i := cs_char sub]),
                 rv_substitutions = [makeSubstitution i (chars ! i) sub]\<rparr>"
proof (cases "pb (chars ! i)")
  case None
  with assms show ?thesis by (simp add: oneEditCandidates_def)
next
  case (Some subs)
  with assms obtain sub where "sub \<in> set (slice0 mpc subs)"
    "v = \<lparr>rv_label = join (chars[i := cs_char sub]),
          rv_substitutions = [makeSubstitution i (chars ! i) sub]\<rparr>"
    by (auto simp: oneEditCandidates_def)
  with Some set_slice0 [of mpc subs] show ?thesis by auto
qed

lemma in_allOneEdit:
  assumes "v \<in> set (allOneEdit pb mpc chars)"
  obtains i subs sub where "i < length chars" "pb (chars ! i) = Some subs" "sub \<in> set subs"
    "v = \<lparr>rv_label = join (chars[i := cs_char sub]),
          rv_substitutions = [makeSubstitution i (chars ! i) sub]\<rparr>"
proof -
  from assms obtain i where i: "i < length chars"
    and v: "v \<in> set (oneEditCandidates pb mpc chars i)"
    by (auto simp: allOneEdit_def)
  from in_oneEditCandidates [OF v] i that show thesis by blast
qed

lemma in_twoEditCandidates:
  assumes "v \<in> set (twoEditCandidates pb mpc chars i j)"
  shows "\<exists>subsI subsJ subI subJ. pb (chars ! i) = Some subsI \<and> pb (chars ! j) = Some subsJ \<and>
           subI \<in> set subsI \<and> subJ \<in> set subsJ \<and>
           v = \<lparr>rv_label = join (chars[i := cs_char subI, j := cs_char subJ]),
                 rv_substitutions = [makeSubstitution i (chars ! i) subI,
                                     makeSubstitution j (chars ! j) subJ]\<rparr>"
proof (cases "pb (chars ! i)")
  case None
  with assms show ?thesis by (simp add: twoEditCandidates_def)
next
  case si: (Some subsI)
  show ?thesis
  proof (cases "pb (chars ! j)")
    case None
    with assms si show ?thesis by (simp add: twoEditCandidates_def)
  next
    case sj: (Some subsJ)
    with assms si obtain subI subJ where "subI \<in> set (slice0 (min mpc 5) subsI)"
      "subJ \<in> set (slice0 (min mpc 5) subsJ)"
      "v = \<lparr>rv_label = join (chars[i := cs_char subI, j := cs_char subJ]),
            rv_substitutions = [makeSubstitution i (chars ! i) subI,
                                makeSubstitution j (chars ! j) subJ]\<rparr>"
      by (auto simp: twoEditCandidates_def)
    with si sj set_slice0 [of "min mpc 5" subsI] set_slice0 [of "min mpc 5" subsJ]
    show ?thesis by auto
  qed
qed

lemma in_allTwoEdit:
  assumes "v \<in> set (allTwoEdit pb mpc chars)"
  obtains i j subsI subsJ subI subJ where "i < j" "j < length chars"
    "pb (chars ! i) = Some subsI" "pb (chars ! j) = Some subsJ"
    "subI \<in> set subsI" "subJ \<in> set subsJ"
    "v = \<lparr>rv_label = join (chars[i := cs_char subI, j := cs_char subJ]),
          rv_substitutions = [makeSubstitution i (chars ! i) subI,
                              makeSubstitution j (chars ! j) subJ]\<rparr>"
proof -
  from assms obtain i j where "i < length chars - 1" "Suc i \<le> j" "j < length chars"
    and v: "v \<in> set (twoEditCandidates pb mpc chars i j)"
    by (auto simp: allTwoEdit_def)
  then have ij: "i < j" "j < length chars" by auto
  from in_twoEditCandidates [OF v] ij that show thesis by blast
qed

lemma subseq_member: "subseq xs ys \<Longrightarrow> x \<in> set xs \<Longrightarrow> x \<in> set ys"
  by (erule list_emb_set) auto

lemma generateVariants_cases:
  assumes "v \<in> set (generateVariants e label' options buckets)"
  shows "v \<in> set (allOneEdit (bucketsOrBuild e options buckets)
                     (orDefault (go_maxPerChar options) 10) (codePoints (toLowerCase e label')))
         \<or> (orDefault (go_maxEdits options) 2 \<ge> 2 \<and>
            v \<in> set (allTwoEdit (bucketsOrBuild e options buckets)
                     (orDefault (go_maxPerChar options) 10) (codePoints (toLowerCase e label'))))"
proof -
  let ?one = "allOneEdit (bucketsOrBuild e options buckets)
                   (orDefault (go_maxPerChar options) 10) (codePoints (toLowerCase e label'))"
  let ?two = "allTwoEdit (bucketsOrBuild e options buckets)
                   (orDefault (go_maxPerChar options) 10) (codePoints (toLowerCase e label'))"
  let ?key = "if orDefault (go_useMaxDanger options) False then dangerKey else stableDangerKey"
  from generateVariants_shape [of e label' options buckets] obtain vs1 vs2 where
    g: "generateVariants e label' options buckets = finalize (vs1 @ vs2) ?key"
    and s1: "subseq vs1 ?one"
    and s2: "subseq vs2 ?two"
    and e2: "orDefault (go_maxEdits options) 2 < 2 \<longrightarrow> vs2 = []"
    by (elim exE conjE)
  from assms have "v \<in> set (finalize (vs1 @ vs2) ?key)"
    by (simp only: g)
  then have "v \<in> set vs1 \<or> v \<in> set vs2"
    by (simp add: finalize_def set_sortBy)
  then show ?thesis
  proof
    assume "v \<in> set vs1"
    with s1 have "v \<in> set ?one" by (rule subseq_member)
    then show ?thesis by (rule disjI1)
  next
    assume v2: "v \<in> set vs2"
    with e2 have "orDefault (go_maxEdits options) 2 \<ge> 2" by auto
    moreover from s2 v2 have "v \<in> set ?two" by (rule subseq_member)
    ultimately show ?thesis by (intro disjI2 conjI)
  qed
qed

subsection \<open>1-edit variants per position\<close>

lemma filter_oneEdit_candidates:
  "filter (isOneEditAt i) (oneEditCandidates pb mpc chars j) =
     (if i = j then oneEditCandidates pb mpc chars j else [])"
  by (auto simp: oneEditCandidates_def isOneEditAt_def makeSubstitution_def filter_map comp_def
      split: option.splits)

lemma filter_twoEdit_candidates:
  "filter (isOneEditAt i) (twoEditCandidates pb mpc chars j k) = []"
  by (auto simp: twoEditCandidates_def isOneEditAt_def filter_empty_conv split: option.splits)

lemma filter_concat_empty:
  "(\<And>j. j \<in> set ps \<Longrightarrow> filter P (f j) = []) \<Longrightarrow> filter P (concat (map f ps)) = []"
  by (induction ps) simp_all

lemma length_filter_concat_single:
  assumes "distinct ps"
    and "\<And>j. j \<in> set ps \<Longrightarrow> filter P (f j) = (if i = j then f j else [])"
  shows "length (filter P (concat (map f ps))) \<le> length (f i)"
  using assms
proof (induction ps)
  case Nil
  show ?case by simp
next
  case (Cons p ps)
  show ?case
  proof (cases "p = i")
    case True
    with Cons.prems(1) have "i \<notin> set ps" by simp
    with Cons.prems(2) have "filter P (f j) = []" if "j \<in> set ps" for j
      using that by auto
    then have "filter P (concat (map f ps)) = []"
      by (rule filter_concat_empty)
    with True show ?thesis by simp
  next
    case False
    with Cons.prems(2) [of p] have "filter P (f p) = []" by simp
    moreover have "length (filter P (concat (map f ps))) \<le> length (f i)"
      using Cons.prems by (intro Cons.IH) auto
    ultimately show ?thesis by simp
  qed
qed

lemma filter_allOneEdit:
  "length (filter (isOneEditAt i) (allOneEdit pb mpc chars)) \<le> length (oneEditCandidates pb mpc chars i)"
  unfolding allOneEdit_def
  by (rule length_filter_concat_single) (simp_all add: filter_oneEdit_candidates)

lemma filter_allTwoEdit: "filter (isOneEditAt i) (allTwoEdit pb mpc chars) = []"
  unfolding allTwoEdit_def
  by (intro filter_concat_empty filter_twoEdit_candidates)

lemma oneEdit_per_position:
  "length (filter (isOneEditAt i) (generateVariants e label' options buckets))
     \<le> length (oneEditCandidates (bucketsOrBuild e options buckets)
                 (orDefault (go_maxPerChar options) 10) (codePoints (toLowerCase e label')) i)"
proof -
  let ?one = "allOneEdit (bucketsOrBuild e options buckets)
                   (orDefault (go_maxPerChar options) 10) (codePoints (toLowerCase e label'))"
  let ?two = "allTwoEdit (bucketsOrBuild e options buckets)
                   (orDefault (go_maxPerChar options) 10) (codePoints (toLowerCase e label'))"
  let ?key = "if orDefault (go_useMaxDanger options) False then dangerKey else stableDangerKey"
  from generateVariants_shape [of e label' options buckets] obtain vs1 vs2 where
    g: "generateVariants e label' options buckets = finalize (vs1 @ vs2) ?key"
    and s1: "subseq vs1 ?one"
    and s2: "subseq vs2 ?two"
    by (elim exE conjE)
  have "subseq (filter (isOneEditAt i) vs2) (filter (isOneEditAt i) ?two)"
    using s2 by (rule subseq_filter)
  then have f2: "filter (isOneEditAt i) vs2 = []"
    by (simp add: filter_allTwoEdit)
  have "subseq (filter (isOneEditAt i) vs1) (filter (isOneEditAt i) ?one)"
    using s1 by (rule subseq_filter)
  then have "length (filter (isOneEditAt i) vs1) \<le> length (filter (isOneEditAt i) ?one)"
    by (rule list_emb_length)
  also have "\<dots> \<le> length (oneEditCandidates (bucketsOrBuild e options buckets)
                 (orDefault (go_maxPerChar options) 10) (codePoints (toLowerCase e label')) i)"
    by (rule filter_allOneEdit)
  finally show ?thesis
    by (simp add: g finalize_def filter_sortBy_length f2)
qed

lemma length_oneEditCandidates_cap:
  "0 \<le> mpc \<Longrightarrow> int (length (oneEditCandidates pb mpc chars i)) \<le> mpc"
  by (auto simp: oneEditCandidates_def length_slice0 split: option.splits)

lemma length_oneEditCandidates_bucket:
  "length (oneEditCandidates pb mpc chars i) \<le> (case pb (chars ! i) of None \<Rightarrow> 0 | Some b \<Rightarrow> length b)"
  by (auto simp: oneEditCandidates_def length_slice0_le split: option.splits)

section \<open>Lemmas about the graph builder\<close>

lemma map_of_None_iff: "map_of m k = None \<longleftrightarrow> k \<notin> fst ` set m"
  by (simp add: map_of_eq_None_iff)

lemma in_alist_update:
  "(k, s) \<in> set (AList.update x v m) \<Longrightarrow> (k, s) \<in> set m \<or> (k, s) = (x, v)"
  by (induction m) (auto split: if_splits)

lemma addEdge_skip:
  "frm = sub \<or> (\<not> inc \<and> \<not> pv) \<Longrightarrow> addEdge e inc frm sub d sd pv raw = raw"
  by (auto simp: addEdge_def)

lemma addEdge_other:
  "x \<noteq> frm \<Longrightarrow> addEdge e inc frm sub d sd pv raw x = raw x"
  by (auto simp: addEdge_def ensureBucket_def orDefault_def Let_def split: option.splits)

lemma addEdge_at:
  assumes "frm \<noteq> sub" "inc \<or> pv"
  shows "\<exists>m'. addEdge e inc frm sub d sd pv raw frm = Some m' \<and>
           fst ` set m' = insert sub (fst ` set (orDefault (raw frm) [])) \<and>
           ((\<forall>(k, s) \<in> set (orDefault (raw frm) []). cs_char s = k) \<longrightarrow>
              (\<forall>(k, s) \<in> set m'. cs_char s = k)) \<and>
           (distinct (map fst (orDefault (raw frm) [])) \<longrightarrow> distinct (map fst m'))"
proof (cases "raw frm")
  case None
  with assms show ?thesis
    by (auto simp: addEdge_def ensureBucket_def orDefault_def Let_def)
next
  case (Some m)
  show ?thesis
  proof (cases "map_of m sub")
    case None
    with Some assms show ?thesis
      by (auto simp: addEdge_def ensureBucket_def orDefault_def Let_def dom_update distinct_update
          dest!: in_alist_update)
  next
    case (Some existing)
    then have mem: "(sub, existing) \<in> set m" by (rule map_of_SomeD)
    then have "sub \<in> fst ` set m" by force
    then have dom: "insert sub (fst ` set m) = fst ` set m" by auto
    from \<open>raw frm = Some m\<close> Some assms mem dom show ?thesis
      by (auto simp: addEdge_def ensureBucket_def orDefault_def Let_def dom_update distinct_update
          dest!: in_alist_update)
  qed
qed

lemma edges_addEdge:
  "edges (addEdge e inc frm sub d sd pv raw) =
     edges raw \<union> (if frm \<noteq> sub \<and> (inc \<or> pv) then {(frm, sub)} else {})"
proof (cases "frm \<noteq> sub \<and> (inc \<or> pv)")
  case False
  then show ?thesis by (auto simp: addEdge_skip)
next
  case True
  then have c: "frm \<noteq> sub" "inc \<or> pv" by auto
  from addEdge_at [OF c, of e d sd raw] obtain m' where
    m': "addEdge e inc frm sub d sd pv raw frm = Some m'"
        "fst ` set m' = insert sub (fst ` set (orDefault (raw frm) []))"
    by blast
  have other: "addEdge e inc frm sub d sd pv raw x = raw x" if "x \<noteq> frm" for x
    using that by (rule addEdge_other)
  have "(x, k) \<in> edges (addEdge e inc frm sub d sd pv raw) \<longleftrightarrow>
          (x, k) \<in> edges raw \<or> (x, k) = (frm, sub)" for x k
  proof (cases "x = frm")
    case False
    with other [OF False] show ?thesis by (simp add: edges_def)
  next
    case True
    with m' show ?thesis
      by (cases "raw frm") (auto simp: edges_def orDefault_def)
  qed
  with True show ?thesis by auto
qed

lemma keyed_addEdge:
  assumes "keyed raw"
  shows "keyed (addEdge e inc frm sub d sd pv raw)"
proof (cases "frm \<noteq> sub \<and> (inc \<or> pv)")
  case False
  with assms show ?thesis by (auto simp: addEdge_skip)
next
  case True
  then have c: "frm \<noteq> sub" "inc \<or> pv" by auto
  from assms have "\<forall>(k, s) \<in> set (orDefault (raw frm) []). cs_char s = k"
    by (cases "raw frm") (auto simp: keyed_def orDefault_def)
  with addEdge_at [OF c, of e d sd raw] obtain m' where
    m': "addEdge e inc frm sub d sd pv raw frm = Some m'" "\<forall>(k, s) \<in> set m'. cs_char s = k"
    by blast
  show ?thesis
    unfolding keyed_def
  proof (intro allI impI)
    fix x m
    assume xm: "addEdge e inc frm sub d sd pv raw x = Some m"
    show "\<forall>(k, s) \<in> set m. cs_char s = k"
    proof (cases "x = frm")
      case True
      with xm m' show ?thesis by simp
    next
      case False
      with xm assms addEdge_other [OF False, of e inc sub d sd pv raw] show ?thesis
        by (simp add: keyed_def)
    qed
  qed
qed

lemma foldl_invariant:
  assumes "P a" and "\<And>x a. x \<in> set xs \<Longrightarrow> P a \<Longrightarrow> P (f a x)"
  shows "P (foldl f a xs)"
  using assms by (induction xs arbitrary: a) auto

text \<open>Any property of the raw graph that holds of the empty graph and that every call of
  \<open>addEdge\<close> made by the two loops preserves, holds of the graph that is built.\<close>

lemma buildRaw_invariant:
  assumes empty: "P Map.empty"
    and mapStep: "\<And>char prototype d sd pv raw. (char, prototype) \<in> set (CONFUSABLE_MAP_FULL e) \<Longrightarrow>
        char \<noteq> prototype \<Longrightarrow> P raw \<Longrightarrow>
        P (addEdge e inc char prototype d sd pv (addEdge e inc prototype char d sd pv raw))"
    and weightStep: "\<And>keyA targets keyB w raw. (keyA, targets) \<in> set (CONFUSABLE_WEIGHTS e) \<Longrightarrow>
        (keyB, w) \<in> set targets \<Longrightarrow> P raw \<Longrightarrow>
        P (addEdge e inc (toLowerCase e keyB) keyA (w_danger w) (w_stableDanger w)
               (orDefault (w_idnaPvalid w) False)
             (addEdge e inc (toLowerCase e keyA) keyB (w_danger w) (w_stableDanger w)
               (orDefault (w_idnaPvalid w) False) raw))"
  shows "P (buildRaw e inc)"
  unfolding buildRaw_def
proof (rule foldl_invariant [where P = P])
  show "P (foldl (addMapEntry e inc) Map.empty (CONFUSABLE_MAP_FULL e))"
  proof (rule foldl_invariant [where P = P])
    show "P Map.empty" by (rule empty)
  next
    fix x raw
    assume x: "x \<in> set (CONFUSABLE_MAP_FULL e)" and raw: "P raw"
    obtain char prototype where xe: "x = (char, prototype)" by (cases x)
    show "P (addMapEntry e inc raw x)"
    proof (cases "char = prototype")
      case True
      with xe raw show ?thesis by (simp add: addMapEntry_def)
    next
      case False
      with xe x raw show ?thesis
        by (simp add: addMapEntry_def Let_def mapStep)
    qed
  qed
next
  fix row raw
  assume row: "row \<in> set (CONFUSABLE_WEIGHTS e)" and raw: "P raw"
  obtain keyA targets where r: "row = (keyA, targets)" by (cases row)
  have "P (foldl (addWeightPair e inc keyA) raw targets)"
  proof (rule foldl_invariant [where P = P])
    show "P raw" by (rule raw)
  next
    fix t raw'
    assume t: "t \<in> set targets" and raw': "P raw'"
    obtain keyB w where te: "t = (keyB, w)" by (cases t)
    from row r t te raw' show "P (addWeightPair e inc keyA raw' t)"
      by (simp add: addWeightPair_def Let_def weightStep)
  qed
  with r show "P (addWeightRow e inc raw row)"
    by (simp add: addWeightRow_def)
qed

lemma keyed_buildRaw: "keyed (buildRaw e inc)"
proof (rule buildRaw_invariant [where P = keyed])
  show "keyed Map.empty" by (simp add: keyed_def)
qed (intro keyed_addEdge, assumption)+

lemma bucket_from_raw:
  assumes "buildPrototypeBuckets e options x = Some b"
  obtains m where "buildRaw e (orDefault (bo_includeNonPvalid options) False) x = Some m"
    "b = slice0 (orDefault (bo_maxPerChar options) 50)
           (sortBy (scoreCmp (if orDefault (bo_useMaxDanger options) False
                              then dangerKey else stableDangerKey)) (map snd m))"
proof (cases "buildRaw e (orDefault (bo_includeNonPvalid options) False) x")
  case None
  with assms show ?thesis by (simp add: buildPrototypeBuckets_def Let_def)
next
  case (Some m)
  moreover have "scoreCmp k = (\<lambda>x y. subScoreOf k y - subScoreOf k x)" for k
    by (auto simp: scoreCmp_def fun_eq_iff)
  ultimately show ?thesis
    using assms that [of m] by (simp add: buildPrototypeBuckets_def Let_def)
qed

lemma bucket_capped_sorted:
  assumes b: "buildPrototypeBuckets e options x = Some b"
  shows "(0 \<le> orDefault (bo_maxPerChar options) 50 \<longrightarrow>
            int (length b) \<le> orDefault (bo_maxPerChar options) 50) \<and>
         sorted_wrt (\<lambda>s t. subScoreOf (if orDefault (bo_useMaxDanger options) False
                                         then dangerKey else stableDangerKey) t
                           \<le> subScoreOf (if orDefault (bo_useMaxDanger options) False
                                         then dangerKey else stableDangerKey) s) b"
proof -
  let ?key = "if orDefault (bo_useMaxDanger options) False then dangerKey else stableDangerKey"
  from b obtain m where
    "buildRaw e (orDefault (bo_includeNonPvalid options) False) x = Some m" and
    beq: "b = slice0 (orDefault (bo_maxPerChar options) 50) (sortBy (scoreCmp ?key) (map snd m))"
    by (rule bucket_from_raw)
  have "sorted_wrt (\<lambda>s t. subScoreOf ?key t \<le> subScoreOf ?key s)
          (sortBy (\<lambda>s t. subScoreOf ?key t - subScoreOf ?key s) (map snd m))"
    by (rule sorted_sortBy_key)
  moreover have "scoreCmp ?key = (\<lambda>s t. subScoreOf ?key t - subScoreOf ?key s)"
    by (auto simp: scoreCmp_def fun_eq_iff)
  ultimately have "sorted_wrt (\<lambda>s t. subScoreOf ?key t \<le> subScoreOf ?key s)
          (sortBy (scoreCmp ?key) (map snd m))"
    by simp
  moreover obtain n where "b = take n (sortBy (scoreCmp ?key) (map snd m))"
    using slice0_prefix beq by blast
  ultimately have "sorted_wrt (\<lambda>s t. subScoreOf ?key t \<le> subScoreOf ?key s) b"
    by (simp add: sorted_wrt_take)
  with beq show ?thesis
    by (simp add: length_slice0)
qed

lemma bucket_chars:
  assumes "buildPrototypeBuckets e options x = Some b" "s \<in> set b"
  shows "(x, cs_char s) \<in> edges (buildRaw e (orDefault (bo_includeNonPvalid options) False))"
proof -
  from assms(1) obtain m where
    m: "buildRaw e (orDefault (bo_includeNonPvalid options) False) x = Some m"
    and beq: "b = slice0 (orDefault (bo_maxPerChar options) 50)
           (sortBy (scoreCmp (if orDefault (bo_useMaxDanger options) False
                              then dangerKey else stableDangerKey)) (map snd m))"
    by (rule bucket_from_raw)
  let ?sorted = "sortBy (scoreCmp (if orDefault (bo_useMaxDanger options) False
                              then dangerKey else stableDangerKey)) (map snd m)"
  from assms(2) beq set_slice0 [of "orDefault (bo_maxPerChar options) 50" ?sorted]
  have "s \<in> set ?sorted" by auto
  then have "s \<in> snd ` set m"
    by (simp add: set_sortBy)
  then obtain k where ks: "(k, s) \<in> set m" by auto
  from keyed_buildRaw [of e "orDefault (bo_includeNonPvalid options) False"] m ks
  have "cs_char s = k" unfolding keyed_def by blast
  moreover from ks have "k \<in> fst ` set m" by force
  ultimately show ?thesis using m unfolding edges_def by blast
qed

lemma slice0_all: "int (length (slice0 k xs)) < k \<Longrightarrow> slice0 k xs = xs"
  by (auto simp: slice0_def split: if_splits)

lemma edge_in_bucket:
  assumes edge: "(x, c) \<in> edges (buildRaw e (orDefault (bo_includeNonPvalid options) False))"
    and uncut: "\<And>b. buildPrototypeBuckets e options x = Some b \<Longrightarrow>
                  int (length b) < orDefault (bo_maxPerChar options) 50"
  shows "\<exists>b t. buildPrototypeBuckets e options x = Some b \<and> t \<in> set b \<and> cs_char t = c"
proof -
  let ?cmp = "scoreCmp (if orDefault (bo_useMaxDanger options) False
                              then dangerKey else stableDangerKey)"
  from edge obtain m t where
    m: "buildRaw e (orDefault (bo_includeNonPvalid options) False) x = Some m"
    and t: "(c, t) \<in> set m"
    by (auto simp: edges_def)
  have "scoreCmp k = (\<lambda>x y. subScoreOf k y - subScoreOf k x)" for k
    by (auto simp: scoreCmp_def fun_eq_iff)
  with m have b: "buildPrototypeBuckets e options x =
      Some (slice0 (orDefault (bo_maxPerChar options) 50) (sortBy ?cmp (map snd m)))"
    by (simp add: buildPrototypeBuckets_def Let_def)
  from uncut [OF b] have "slice0 (orDefault (bo_maxPerChar options) 50) (sortBy ?cmp (map snd m))
      = sortBy ?cmp (map snd m)"
    by (rule slice0_all)
  with b have b': "buildPrototypeBuckets e options x = Some (sortBy ?cmp (map snd m))"
    by simp
  from t have "t \<in> set (sortBy ?cmp (map snd m))"
    by (force simp: set_sortBy)
  moreover from keyed_buildRaw [of e "orDefault (bo_includeNonPvalid options) False"] m t
  have "cs_char t = c" unfolding keyed_def by blast
  ultimately show ?thesis using b' by blast
qed

lemma sym_edges_buildRaw:
  assumes "lowerCaseKeys e"
  shows "sym (edges (buildRaw e inc))"
proof (rule buildRaw_invariant [where P = "\<lambda>raw. sym (edges raw)"])
  show "sym (edges Map.empty)" by (simp add: edges_def sym_def)
next
  fix char prototype d sd pv raw
  assume "sym (edges raw)"
  then show "sym (edges (addEdge e inc char prototype d sd pv
                           (addEdge e inc prototype char d sd pv raw)))"
    by (auto simp: edges_addEdge sym_def)
next
  fix keyA targets keyB w raw
  assume "(keyA, targets) \<in> set (CONFUSABLE_WEIGHTS e)" "(keyB, w) \<in> set targets"
  with assms have "toLowerCase e keyA = keyA" "toLowerCase e keyB = keyB"
    by (auto simp: lowerCaseKeys_def)
  moreover assume "sym (edges raw)"
  ultimately show "sym (edges (addEdge e inc (toLowerCase e keyB) keyA (w_danger w)
             (w_stableDanger w) (orDefault (w_idnaPvalid w) False)
             (addEdge e inc (toLowerCase e keyA) keyB (w_danger w) (w_stableDanger w)
               (orDefault (w_idnaPvalid w) False) raw)))"
    by (auto simp: edges_addEdge sym_def)
qed

lemma map_char_in_table:
  assumes "(char, prototype) \<in> set (CONFUSABLE_MAP_FULL e)"
  shows "char \<in> set (tableChars e)" and "prototype \<in> set (tableChars e)"
proof -
  have "set [char, prototype] \<subseteq> set (concat (map (\<lambda>(char, prototype). [char, prototype])
                                               (CONFUSABLE_MAP_FULL e)))"
    using assms by (auto intro!: bexI [where x = "(char, prototype)"])
  then show "char \<in> set (tableChars e)" and "prototype \<in> set (tableChars e)"
    by (auto simp: tableChars_def)
qed

lemma weight_key_in_table:
  assumes "(keyA, targets) \<in> set (CONFUSABLE_WEIGHTS e)" "(keyB, w) \<in> set targets"
  shows "keyA \<in> set (tableChars e)" and "keyB \<in> set (tableChars e)"
proof -
  from assms(2) have "keyB \<in> set (map fst targets)" by force
  then have "set [keyA, keyB] \<subseteq> set (concat (map (\<lambda>(keyA, targets). keyA # map fst targets)
                                          (CONFUSABLE_WEIGHTS e)))"
    using assms(1) by (auto intro!: bexI [where x = "(keyA, targets)"])
  then show "keyA \<in> set (tableChars e)" and "keyB \<in> set (tableChars e)"
    by (auto simp: tableChars_def)
qed

lemma edges_addEdge_subset:
  assumes "edges raw \<subseteq> S" and "frm \<noteq> sub \<Longrightarrow> (frm, sub) \<in> S"
  shows "edges (addEdge e inc frm sub d sd pv raw) \<subseteq> S"
  using assms by (auto simp: edges_addEdge split: if_splits)

lemma edges_buildRaw_targets:
  "edges (buildRaw e inc) \<subseteq> {(x, k). x \<noteq> k \<and> k \<in> set (tableChars e)}"
proof (rule buildRaw_invariant
    [where P = "\<lambda>raw. edges raw \<subseteq> {(x, k). x \<noteq> k \<and> k \<in> set (tableChars e)}"])
  show "edges Map.empty \<subseteq> {(x, k). x \<noteq> k \<and> k \<in> set (tableChars e)}"
    by (simp add: edges_def)
next
  fix char prototype d sd pv raw
  assume "(char, prototype) \<in> set (CONFUSABLE_MAP_FULL e)"
  then have t: "char \<in> set (tableChars e)" "prototype \<in> set (tableChars e)"
    by (rule map_char_in_table)+
  assume "edges raw \<subseteq> {(x, k). x \<noteq> k \<and> k \<in> set (tableChars e)}"
  then show "edges (addEdge e inc char prototype d sd pv
                            (addEdge e inc prototype char d sd pv raw))
                   \<subseteq> {(x, k). x \<noteq> k \<and> k \<in> set (tableChars e)}"
    using t by (intro edges_addEdge_subset) simp_all
next
  fix keyA targets keyB w raw
  assume "(keyA, targets) \<in> set (CONFUSABLE_WEIGHTS e)" "(keyB, w) \<in> set targets"
  then have t: "keyA \<in> set (tableChars e)" "keyB \<in> set (tableChars e)"
    by (rule weight_key_in_table)+
  assume "edges raw \<subseteq> {(x, k). x \<noteq> k \<and> k \<in> set (tableChars e)}"
  then show "edges (addEdge e inc (toLowerCase e keyB) keyA (w_danger w)
             (w_stableDanger w) (orDefault (w_idnaPvalid w) False)
             (addEdge e inc (toLowerCase e keyA) keyB (w_danger w) (w_stableDanger w)
               (orDefault (w_idnaPvalid w) False) raw))
           \<subseteq> {(x, k). x \<noteq> k \<and> k \<in> set (tableChars e)}"
    using t by (intro edges_addEdge_subset) simp_all
qed

lemma wellFormed_build:
  assumes "scalarTables e"
  shows "wellFormedBuckets (buildPrototypeBuckets e options)"
  unfolding wellFormedBuckets_def
proof (intro allI impI ballI)
  fix proto subs s
  assume "buildPrototypeBuckets e options proto = Some subs" "s \<in> set subs"
  then have "(proto, cs_char s) \<in> edges (buildRaw e (orDefault (bo_includeNonPvalid options) False))"
    by (rule bucket_chars)
  with edges_buildRaw_targets [of e "orDefault (bo_includeNonPvalid options) False"]
  have "proto \<noteq> cs_char s" "cs_char s \<in> set (tableChars e)" by auto
  with assms show "isScalar (cs_char s) \<and> cs_char s \<noteq> proto"
    by (auto simp: scalarTables_def)
qed

subsection \<open>Bucket sizes\<close>

lemma addEdge_distinct:
  assumes "distinctKeys raw"
  shows "distinctKeys (addEdge e inc frm sub d sd pv raw)"
proof (cases "frm \<noteq> sub \<and> (inc \<or> pv)")
  case False
  with assms show ?thesis by (auto simp: addEdge_skip)
next
  case True
  then have c: "frm \<noteq> sub" "inc \<or> pv" by auto
  have d0: "distinct (map fst (orDefault (raw frm) []))"
    using assms by (cases "raw frm") (auto simp: distinctKeys_def orDefault_def)
  with addEdge_at [OF c, of e d sd raw] obtain m' where
    m': "addEdge e inc frm sub d sd pv raw frm = Some m'" "distinct (map fst m')"
    by blast
  show ?thesis
    unfolding distinctKeys_def
  proof (intro allI impI)
    fix x m
    assume xm: "addEdge e inc frm sub d sd pv raw x = Some m"
    show "distinct (map fst m)"
    proof (cases "x = frm")
      case True
      with xm m' show ?thesis by simp
    next
      case False
      with xm assms addEdge_other [OF False, of e inc sub d sd pv raw] show ?thesis
        by (simp add: distinctKeys_def)
    qed
  qed
qed

lemma distinctKeys_buildRaw: "distinctKeys (buildRaw e inc)"
proof (rule buildRaw_invariant [where P = distinctKeys])
  show "distinctKeys Map.empty" by (simp add: distinctKeys_def)
qed (intro addEdge_distinct, assumption)+

lemma raw_bucket_length:
  assumes "buildRaw e inc x = Some m"
  shows "length m \<le> length (tableChars e)"
proof -
  from distinctKeys_buildRaw [of e inc] assms have "distinct (map fst m)"
    by (auto simp: distinctKeys_def)
  then have "length m = card (fst ` set m)"
    by (metis distinct_card length_map list.set_map)
  moreover have "fst ` set m \<subseteq> set (tableChars e)"
    using edges_buildRaw_targets [of e inc] assms by (force simp: edges_def)
  then have "card (fst ` set m) \<le> card (set (tableChars e))"
    by (intro card_mono) auto
  moreover have "card (set (tableChars e)) \<le> length (tableChars e)"
    by (rule card_length)
  ultimately show ?thesis by simp
qed

lemma bucket_length:
  assumes "buildPrototypeBuckets e options x = Some b"
  shows "length b \<le> length (tableChars e)"
proof -
  from assms obtain m where
    m: "buildRaw e (orDefault (bo_includeNonPvalid options) False) x = Some m"
    and beq: "b = slice0 (orDefault (bo_maxPerChar options) 50)
           (sortBy (scoreCmp (if orDefault (bo_useMaxDanger options) False
                              then dangerKey else stableDangerKey)) (map snd m))"
    by (rule bucket_from_raw)
  from beq have "length b \<le> length m"
    using length_slice0_le [of "orDefault (bo_maxPerChar options) 50"] by (metis length_map length_sortBy)
  with raw_bucket_length [OF m] show ?thesis by simp
qed

section \<open>Evaluations on the example tables\<close>

lemma demo_gen_a: "buildPrototypeBuckets demoEnv genBuild [0x61] = Some [subCyrA, subAlpha]"
  by code_simp

lemma demo_gen_b: "buildPrototypeBuckets demoEnv genBuild [0x62] = Some [subSoft]"
  by code_simp

lemma cap1_a: "buildPrototypeBuckets demoEnv (buildCap 1) (js ''a'') = Some [subCyrA]"
  by code_simp

lemma cap1_alpha: "buildPrototypeBuckets demoEnv (buildCap 1) [0x251] = Some [subLatinA 0.85 0.8]"
  by code_simp

lemma flag_b: "map_option (map cs_char) (buildPrototypeBuckets flagEnv buildAll [0x431]) = Some [js ''A'', js ''a'']"
  by code_simp

lemma flag_A: "buildPrototypeBuckets flagEnv buildAll (js ''A'') = None"
  by code_simp

lemma capneg: "map_option length (buildPrototypeBuckets demoEnv (buildCap (-1)) (js ''a'')) = Some 1"
  by code_simp

lemma demoEnv_tables:
  "CONFUSABLE_MAP_FULL demoEnv = [([0x430], js ''a'')]"
  "CONFUSABLE_WEIGHTS demoEnv =
        [(js ''a'', [([0x430], \<lparr>w_danger = 1, w_stableDanger = 0.9, w_idnaPvalid = Some True\<rparr>),
                     ([0x251], \<lparr>w_danger = 0.85, w_stableDanger = 0.8, w_idnaPvalid = Some True\<rparr>)]),
         (js ''b'', [([0x44C], \<lparr>w_danger = 0.7, w_stableDanger = 0.6, w_idnaPvalid = Some True\<rparr>)])]"
  "toLowerCase demoEnv = asciiLower"
  by (simp_all add: demoEnv_def emptyEnv_def)

lemma tableChars_demoEnv:
  "tableChars demoEnv = [[0x430], js ''a'', js ''a'', [0x430], [0x251], js ''b'', [0x44C]]"
  by (simp add: tableChars_def demoEnv_tables)

lemma lowerCaseKeys_demoEnv: "lowerCaseKeys demoEnv"
  by (simp add: lowerCaseKeys_def demoEnv_tables asciiLower_def js_def)

lemma scalarTables_demoEnv: "scalarTables demoEnv"
  by (simp add: scalarTables_def tableChars_demoEnv isScalar_def js_def
      isHighSurrogate_def isLowSurrogate_def)

lemma demoEnv_uncut:
  "\<forall>x b. buildPrototypeBuckets demoEnv buildAll x = Some b \<longrightarrow>
           int (length b) < orDefault (bo_maxPerChar buildAll) 50"
proof (intro allI impI)
  fix x b
  assume "buildPrototypeBuckets demoEnv buildAll x = Some b"
  then have "length b \<le> length (tableChars demoEnv)"
    by (rule bucket_length)
  then show "int (length b) < orDefault (bo_maxPerChar buildAll) 50"
    by (simp add: tableChars_demoEnv buildAll_def orDefault_def)
qed

lemma bucketsOrBuild_demo: "bucketsOrBuild demoEnv genOpts1 None = buildPrototypeBuckets demoEnv genBuild"
  by (simp add: bucketsOrBuild_def genOpts1_def genBuild_def orDefault_def)

lemma chars_Ab: "codePoints (toLowerCase demoEnv (js ''Ab'')) = [[0x61], [0x62]]"
  by (simp add: demoEnv_tables asciiLower_def js_def isHighSurrogate_def isLowSurrogate_def)

lemma oneEditPass_Ab:
  "oneEditPass (buildPrototypeBuckets demoEnv genBuild) 10 5000 [[0x61], [0x62]] ({}, [])
   = (True, {[0x430, 0x62], [0x251, 0x62], [0x61, 0x44C]},
      [\<lparr>rv_label = [0x430, 0x62], rv_substitutions = [makeSubstitution 0 [0x61] subCyrA]\<rparr>,
       \<lparr>rv_label = [0x251, 0x62], rv_substitutions = [makeSubstitution 0 [0x61] subAlpha]\<rparr>,
       \<lparr>rv_label = [0x61, 0x44C], rv_substitutions = [makeSubstitution 1 [0x62] subSoft]\<rparr>])"
  by (simp add: oneEditPass_def oneEditAt_def upt_rec demo_gen_a demo_gen_b slice0_def tryAdd_def
      join_def subCyrA_def subAlpha_def subSoft_def Let_def insert_commute)

lemma generateVariants_Ab:
  "generateVariants demoEnv (js ''Ab'') genOpts1 None =
      [\<lparr>rv_label = [0x430, 0x62], rv_substitutions = [makeSubstitution 0 [0x61] subCyrA]\<rparr>,
       \<lparr>rv_label = [0x251, 0x62], rv_substitutions = [makeSubstitution 0 [0x61] subAlpha]\<rparr>,
       \<lparr>rv_label = [0x61, 0x44C], rv_substitutions = [makeSubstitution 1 [0x62] subSoft]\<rparr>]"
proof -
  have "generateVariants demoEnv (js ''Ab'') genOpts1 None =
    finalize [\<lparr>rv_label = [0x430, 0x62], rv_substitutions = [makeSubstitution 0 [0x61] subCyrA]\<rparr>,
       \<lparr>rv_label = [0x251, 0x62], rv_substitutions = [makeSubstitution 0 [0x61] subAlpha]\<rparr>,
       \<lparr>rv_label = [0x61, 0x44C], rv_substitutions = [makeSubstitution 1 [0x62] subSoft]\<rparr>]
      stableDangerKey"
    unfolding generateVariants_def bucketsOrBuild_demo chars_Ab
    by (simp add: Let_def genOpts1_def orDefault_def oneEditPass_Ab)
  also have "\<dots> = [\<lparr>rv_label = [0x430, 0x62], rv_substitutions = [makeSubstitution 0 [0x61] subCyrA]\<rparr>,
       \<lparr>rv_label = [0x251, 0x62], rv_substitutions = [makeSubstitution 0 [0x61] subAlpha]\<rparr>,
       \<lparr>rv_label = [0x61, 0x44C], rv_substitutions = [makeSubstitution 1 [0x62] subSoft]\<rparr>]"
    by (simp add: finalize_def sortBy_def aggregateScore_def scoreOf_def makeSubstitution_def
        subCyrA_def subAlpha_def subSoft_def)
  finally show ?thesis .
qed

section \<open>Properties of the danger scorer\<close>

lemma max_min_clamp01: "max 0 (min 1 x) = clamp01 x"
  by (simp add: clamp01_def max_def min_def)

lemma foldl_mult_prod_list:
  "foldl (\<lambda>p x. p * f x) a xs = (a::real) * prod_list (map f xs)"
  by (induction xs arbitrary: a) (simp_all add: mult.assoc)

text \<open>
  Claim C1. For a non-empty substitution list \<^verbatim>\<open>computeDangerScore\<close> is the clamp to
  \<open>[0,1]\<close> of: the product of the score key (\<^verbatim>\<open>danger\<close> when \<^verbatim>\<open>useMaxDanger\<close> is set,
  \<^verbatim>\<open>stableDanger\<close> otherwise), times the multi-edit penalty \<open>1 - 0.1 * (editCount - 1)\<close>,
  times \<open>0.9\<close> when more than one distinct script occurs and \<open>1\<close> otherwise. The empty
  list scores exactly \<open>0\<close>. A single substitution whose \<^verbatim>\<open>stableDanger\<close> lies in
  \<open>[0,1]\<close> (the range of the data model) scores that \<^verbatim>\<open>stableDanger\<close> by default.
\<close>

theorem computeDangerScore_formula:
  "computeDangerScore [] opts = 0 \<and>
   (subs \<noteq> [] \<longrightarrow>
      computeDangerScore subs opts =
        clamp01 (prod_list (map (\<lambda>s. if so_useMaxDanger opts = Some True then danger s
                                       else stableDanger s) subs)
                 * (1 - 0.1 * (real (length subs) - 1))
                 * (if card (set (map script subs)) > 1 then 0.9 else 1.0))) \<and>
   (so_useMaxDanger opts \<noteq> Some True \<and> 0 \<le> stableDanger s \<and> stableDanger s \<le> 1 \<longrightarrow>
      computeDangerScore [s] opts = stableDanger s)"
proof (intro conjI impI)
  show "computeDangerScore [] opts = 0"
    by (simp add: computeDangerScore_def)
next
  assume ne: "subs \<noteq> []"
  have key: "orDefault (so_useMaxDanger opts) False = (so_useMaxDanger opts = Some True)"
    by (cases "so_useMaxDanger opts") (auto simp: orDefault_def)
  have sk: "scoreOf (if so_useMaxDanger opts = Some True then dangerKey else stableDangerKey)
              = (\<lambda>s. if so_useMaxDanger opts = Some True then danger s else stableDanger s)"
    by (auto simp: scoreOf_def)
  show "computeDangerScore subs opts =
        clamp01 (prod_list (map (\<lambda>s. if so_useMaxDanger opts = Some True then danger s
                                       else stableDanger s) subs)
                 * (1 - 0.1 * (real (length subs) - 1))
                 * (if card (set (map script subs)) > 1 then 0.9 else 1.0))"
    using ne
    by (simp add: computeDangerScore_def Let_def key sk foldl_mult_prod_list
        max_min_clamp01 del: max.absorb1 max.absorb2 max.absorb3 max.absorb4
        min.absorb1 min.absorb2 min.absorb3 min.absorb4)
next
  assume h: "so_useMaxDanger opts \<noteq> Some True \<and> 0 \<le> stableDanger s \<and> stableDanger s \<le> 1"
  then have key: "orDefault (so_useMaxDanger opts) False = False"
    by (cases "so_useMaxDanger opts") (auto simp: orDefault_def)
  show "computeDangerScore [s] opts = stableDanger s"
    using h by (simp add: computeDangerScore_def Let_def key scoreOf_def max_def min_def)
qed

theorem computeDangerScore_formula_witness:
  "computeDangerScore
     [\<lparr>position = 0, original = js ''a'', replacement = [0x430], codepoint = js ''U+0430'',
       script = js ''Cyrillic'', danger = 1, stableDanger = 0.9, idnaPvalid = True\<rparr>,
      \<lparr>position = 2, original = js ''e'', replacement = [0x3B5], codepoint = js ''U+03B5'',
       script = js ''Greek'', danger = 1, stableDanger = 0.85, idnaPvalid = True\<rparr>]
     \<lparr>so_useMaxDanger = None, so_font = None\<rparr> = 0.61965 \<and>
   computeDangerScore
     [\<lparr>position = 0, original = js ''a'', replacement = [0x430], codepoint = js ''U+0430'',
       script = js ''Cyrillic'', danger = 1, stableDanger = 0.9, idnaPvalid = True\<rparr>]
     \<lparr>so_useMaxDanger = None, so_font = None\<rparr> = 0.9"
  using computeDangerScore_formula
    [of "\<lparr>so_useMaxDanger = None, so_font = None\<rparr>"
        "[\<lparr>position = 0, original = js ''a'', replacement = [0x430], codepoint = js ''U+0430'',
           script = js ''Cyrillic'', danger = 1, stableDanger = 0.9, idnaPvalid = True\<rparr>,
          \<lparr>position = 2, original = js ''e'', replacement = [0x3B5], codepoint = js ''U+03B5'',
           script = js ''Greek'', danger = 1, stableDanger = 0.85, idnaPvalid = True\<rparr>]"
        "\<lparr>position = 0, original = js ''a'', replacement = [0x430], codepoint = js ''U+0430'',
          script = js ''Cyrillic'', danger = 1, stableDanger = 0.9, idnaPvalid = True\<rparr>"]
  by (simp add: clamp01_def js_def)



section \<open>Properties of the Bootstring decoder\<close>

lemma splitDomain_overflow_example:
  "splitDomain emptyEnv (js ''xn--99999.com'') = (js ''xn--99999'', js ''com'')"
  by (simp add: splitDomain_def emptyEnv_def asciiLower_def js_def stripTrailingDot_def
      knownMultiPart_def endsWith_def lastIndexOf_def Let_def)

lemma decode_overflow_example: "decodePunycodeLabel (js ''xn--99999'') = Inl RangeError"
  by (simp add: decodePunycodeLabel_def js_def startsWith_def lastIndexOf_def digitValue_def
      BASE_def TMIN_def TMAX_def SKEW_def DAMP_def INITIAL_N_def INITIAL_BIAS_def adapt_def
      fromCodePoint_def Let_def adaptLoop.simps decodeLoop.simps)

text \<open>
  Claim C2 says that decoding an ACE label never raises an error. The decoder has no
  overflow check: the five digits of \<^verbatim>\<open>xn--99999\<close> are all read as one delta,
  \<open>i = 4760385\<close>, so \<open>n = 128 + 4760385\<close> exceeds \<open>0x10FFFF\<close> and
  \<^verbatim>\<open>String.fromCodePoint(n)\<close> raises a RangeError, which neither
  \<^verbatim>\<open>decodePunycodeLabel\<close> nor \<^verbatim>\<open>reverseScan\<close> catches.
\<close>

theorem decodePunycodeLabel_raises:
  "decodePunycodeLabel (js ''xn--99999'') = Inl RangeError \<and>
   reverseScan emptyEnv (js ''xn--99999.com'') = Inl RangeError"
proof
  show "decodePunycodeLabel (js ''xn--99999'') = Inl RangeError"
    by (rule decode_overflow_example)
  have "startsWith (js ''xn--99999'') (js ''xn--'')"
    by (simp add: startsWith_def js_def)
  then show "reverseScan emptyEnv (js ''xn--99999.com'') = Inl RangeError"
    by (simp add: reverseScan_def splitDomain_overflow_example decode_overflow_example)
qed


section \<open>Properties of the graph builder\<close>

text \<open>
  Claim C5 says that on a duplicate edge the entry kept has the higher \<^verbatim>\<open>stableDanger\<close>
  and the logical OR of the two \<^verbatim>\<open>idnaPvalid\<close> flags. \<^verbatim>\<open>addEdge\<close> forms the OR only in
  the branch that replaces the scores. Here the edge from \<open>a\<close> to U+0431 is inserted with
  \<open>(0.9, false)\<close> and then with \<open>(0.5, true)\<close>: the entry keeps \<open>0.9\<close> and the flag
  stays \<open>false\<close>. Inserted in the other order, the same two edges give the flag \<open>true\<close>.
\<close>

theorem addEdge_flag_not_union:
  "map_option (map (\<lambda>(k, s). (cs_char s, cs_stableDanger s, cs_idnaPvalid s)))
     (addEdge emptyEnv True (js ''a'') [0x431] 0.5 0.5 True
        (addEdge emptyEnv True (js ''a'') [0x431] 0.9 0.9 False Map.empty) (js ''a''))
     = Some [([0x431], 0.9, False)] \<and>
   map_option (map (\<lambda>(k, s). (cs_char s, cs_stableDanger s, cs_idnaPvalid s)))
     (addEdge emptyEnv True (js ''a'') [0x431] 0.9 0.9 False
        (addEdge emptyEnv True (js ''a'') [0x431] 0.5 0.5 True Map.empty) (js ''a''))
     = Some [([0x431], 0.9, True)] \<and>
   map_option (map (\<lambda>s. (cs_char s, cs_stableDanger s, cs_idnaPvalid s)))
     (buildPrototypeBuckets flagEnv
        \<lparr>bo_includeNonPvalid = Some True, bo_maxPerChar = None, bo_useMaxDanger = None\<rparr>
        (js ''a''))
     = Some [([0x431], 0.9, False)]"
  by code_simp

text \<open>
  Claim C7 says that with \<^verbatim>\<open>includeNonPvalid\<close> the graph is symmetric: every bucket entry
  has an inverse entry. Two mechanisms of the builder break this. The cap: with
  \<^verbatim>\<open>maxPerChar = 1\<close> the bucket of \<open>a\<close> keeps only U+0430, while the bucket of U+0251
  still lists \<open>a\<close>. The lower-casing of bucket anchors: the pair (A, U+0431) gives the edges
  \<open>a\<close> to U+0431 and U+0431 to \<open>A\<close>, and there is no bucket for \<open>A\<close>.
\<close>

theorem buckets_symmetric_counterexample:
  "\<not> symmetricBuckets (buildPrototypeBuckets demoEnv (buildCap 1)) \<and>
   \<not> symmetricBuckets (buildPrototypeBuckets flagEnv buildAll)"
proof
  show "\<not> symmetricBuckets (buildPrototypeBuckets demoEnv (buildCap 1))"
  proof
    assume "symmetricBuckets (buildPrototypeBuckets demoEnv (buildCap 1))"
    then have "\<exists>bs t. buildPrototypeBuckets demoEnv (buildCap 1) (cs_char (subLatinA 0.85 0.8)) = Some bs
                 \<and> t \<in> set bs \<and> cs_char t = [0x251]"
      unfolding symmetricBuckets_def using cap1_alpha by (metis list.set_intros(1))
    then show False
      by (simp add: subLatinA_def cap1_a subCyrA_def)
  qed
  show "\<not> symmetricBuckets (buildPrototypeBuckets flagEnv buildAll)"
  proof
    assume s: "symmetricBuckets (buildPrototypeBuckets flagEnv buildAll)"
    from flag_b obtain b where b: "buildPrototypeBuckets flagEnv buildAll [0x431] = Some b"
      and c: "map cs_char b = [js ''A'', js ''a'']"
      by auto
    from c obtain t where t: "t \<in> set b" "cs_char t = js ''A''"
      by (cases b) auto
    from b t(1) have "buildPrototypeBuckets flagEnv buildAll [0x431] = Some b \<and> t \<in> set b"
      by simp
    with s [unfolded symmetricBuckets_def, rule_format, of "[0x431]" b t]
    obtain bs where "buildPrototypeBuckets flagEnv buildAll (cs_char t) = Some bs"
      by auto
    with t(2) show False by (simp add: flag_A)
  qed
qed

text \<open>
  Claim C7 as amended: when \<^verbatim>\<open>includeNonPvalid\<close> is true, every key of the weight table
  is its own lower-case form, and no bucket reaches the cap \<^verbatim>\<open>maxPerChar\<close> (so that nothing
  was cut off), every bucket entry from a character \<open>x\<close> to a substitute \<open>s\<close> has an
  inverse entry in the bucket of \<open>s\<close>. (The proof does not use the first condition: the
  PVALID filter drops both directions of a pair together.)
\<close>

theorem buckets_symmetric:
  assumes "bo_includeNonPvalid options = Some True"
    and "lowerCaseKeys e"
    and "\<forall>x b. buildPrototypeBuckets e options x = Some b \<longrightarrow>
           int (length b) < orDefault (bo_maxPerChar options) 50"
  shows "symmetricBuckets (buildPrototypeBuckets e options)"
  unfolding symmetricBuckets_def
proof (intro allI impI)
  fix x bx s
  assume "buildPrototypeBuckets e options x = Some bx \<and> s \<in> set bx"
  then have "(x, cs_char s) \<in> edges (buildRaw e (orDefault (bo_includeNonPvalid options) False))"
    by (auto intro: bucket_chars)
  with sym_edges_buildRaw [OF assms(2)]
  have "(cs_char s, x) \<in> edges (buildRaw e (orDefault (bo_includeNonPvalid options) False))"
    by (auto dest: symD)
  then show "\<exists>bs t. buildPrototypeBuckets e options (cs_char s) = Some bs \<and> t \<in> set bs \<and> cs_char t = x"
    using assms(3) by (intro edge_in_bucket) auto
qed

theorem buckets_symmetric_witness:
  "lowerCaseKeys demoEnv \<and> symmetricBuckets (buildPrototypeBuckets demoEnv buildAll)"
proof
  show "lowerCaseKeys demoEnv" by (rule lowerCaseKeys_demoEnv)
  have "bo_includeNonPvalid buildAll = Some True" by (simp add: buildAll_def)
  then show "symmetricBuckets (buildPrototypeBuckets demoEnv buildAll)"
    using lowerCaseKeys_demoEnv demoEnv_uncut by (rule buckets_symmetric)
qed

section \<open>Properties of the generator\<close>

text \<open>
  Claim C3 says that every variant differs from the input label at exactly one position
  (two for a 2-edit variant). The generator lower-cases the label first, so for the label
  \<open>Ab\<close> with \<^verbatim>\<open>maxEdits = 1\<close> the variant that replaces \<open>b\<close> by U+044C is
  \<open>a\<close> U+044C, which differs from the input \<open>Ab\<close> at both positions.
\<close>

theorem generateVariants_edit_positions_counterexample:
  "map rv_label (generateVariants demoEnv (js ''Ab'') genOpts1 None)
     = [[0x430, 0x62], [0x251, 0x62], [0x61, 0x44C]] \<and>
   differingPositions (js ''Ab'') [0x61, 0x44C] = Some 2"
proof
  show "map rv_label (generateVariants demoEnv (js ''Ab'') genOpts1 None)
     = [[0x430, 0x62], [0x251, 0x62], [0x61, 0x44C]]"
    by (simp add: generateVariants_Ab)
  show "differingPositions (js ''Ab'') [0x61, 0x44C] = Some 2"
    by (simp add: differingPositions_def js_def isHighSurrogate_def isLowSurrogate_def)
qed

text \<open>
  Claim C3 as amended: for every label, provided every substitute in the buckets is one
  whole code point other than its bucket's character, every variant that
  \<^verbatim>\<open>generateVariants\<close> returns either has one substitution and differs from the
  lower-cased label at exactly one position, or (only when \<^verbatim>\<open>maxEdits\<close> is at least 2)
  has two substitutions and differs from the lower-cased label at exactly two positions;
  and the positions in its substitution list are strictly increasing.
\<close>

theorem generateVariants_edit_positions:
  assumes wf: "wellFormedBuckets (bucketsOrBuild e options buckets)"
    and v: "v \<in> set (generateVariants e label' options buckets)"
  shows "(length (rv_substitutions v) = 1 \<and>
            differingPositions (toLowerCase e label') (rv_label v) = Some 1
          \<or> 2 \<le> orDefault (go_maxEdits options) 2 \<and> length (rv_substitutions v) = 2 \<and>
            differingPositions (toLowerCase e label') (rv_label v) = Some 2)
         \<and> sorted_wrt (<) (map position (rv_substitutions v))"
  using generateVariants_cases [OF v]
proof
  assume "v \<in> set (allOneEdit (bucketsOrBuild e options buckets)
                     (orDefault (go_maxPerChar options) 10) (codePoints (toLowerCase e label')))"
  then obtain i subs sub where i: "i < length (codePoints (toLowerCase e label'))"
    and b: "bucketsOrBuild e options buckets (codePoints (toLowerCase e label') ! i) = Some subs"
    and sub: "sub \<in> set subs"
    and veq: "v = \<lparr>rv_label = join ((codePoints (toLowerCase e label'))[i := cs_char sub]),
          rv_substitutions = [makeSubstitution i (codePoints (toLowerCase e label') ! i) sub]\<rparr>"
    by (rule in_allOneEdit)
  from wf b sub have "isScalar (cs_char sub)" "cs_char sub \<noteq> codePoints (toLowerCase e label') ! i"
    by (auto simp: wellFormedBuckets_def)
  with i veq show ?thesis
    by (simp add: differingPositions_update)
next
  assume "2 \<le> orDefault (go_maxEdits options) 2 \<and>
          v \<in> set (allTwoEdit (bucketsOrBuild e options buckets)
                     (orDefault (go_maxPerChar options) 10) (codePoints (toLowerCase e label')))"
  then have m: "2 \<le> orDefault (go_maxEdits options) 2"
    and mem: "v \<in> set (allTwoEdit (bucketsOrBuild e options buckets)
                     (orDefault (go_maxPerChar options) 10) (codePoints (toLowerCase e label')))"
    by auto
  from mem obtain i j subsI subsJ subI subJ where ij: "i < j" "j < length (codePoints (toLowerCase e label'))"
    and b: "bucketsOrBuild e options buckets (codePoints (toLowerCase e label') ! i) = Some subsI"
       "bucketsOrBuild e options buckets (codePoints (toLowerCase e label') ! j) = Some subsJ"
    and sub: "subI \<in> set subsI" "subJ \<in> set subsJ"
    and veq: "v = \<lparr>rv_label = join ((codePoints (toLowerCase e label'))[i := cs_char subI, j := cs_char subJ]),
          rv_substitutions = [makeSubstitution i (codePoints (toLowerCase e label') ! i) subI,
                              makeSubstitution j (codePoints (toLowerCase e label') ! j) subJ]\<rparr>"
    by (rule in_allTwoEdit)
  from wf b sub have "isScalar (cs_char subI)" "cs_char subI \<noteq> codePoints (toLowerCase e label') ! i"
    "isScalar (cs_char subJ)" "cs_char subJ \<noteq> codePoints (toLowerCase e label') ! j"
    by (auto simp: wellFormedBuckets_def)
  with ij veq m show ?thesis
    by (simp add: differingPositions_update2 makeSubstitution_def)
qed

theorem generateVariants_edit_positions_witness:
  "wellFormedBuckets (bucketsOrBuild demoEnv genOpts1 None) \<and>
   differingPositions (toLowerCase demoEnv (js ''Ab'')) [0x61, 0x44C] = Some 1"
proof
  show wf: "wellFormedBuckets (bucketsOrBuild demoEnv genOpts1 None)"
    unfolding bucketsOrBuild_demo using scalarTables_demoEnv by (rule wellFormed_build)
  have v: "\<lparr>rv_label = [0x61, 0x44C], rv_substitutions = [makeSubstitution 1 [0x62] subSoft]\<rparr>
             \<in> set (generateVariants demoEnv (js ''Ab'') genOpts1 None)"
    by (simp add: generateVariants_Ab)
  from generateVariants_edit_positions [OF wf v]
  show "differingPositions (toLowerCase demoEnv (js ''Ab'')) [0x61, 0x44C] = Some 1"
    by (simp add: genOpts1_def orDefault_def)
qed

text \<open>
  Claim C9 says that with \<^verbatim>\<open>maxPerChar = k\<close> every bucket has at most \<open>k\<close> entries.
  The cap is applied with \<^verbatim>\<open>subs.slice(0, maxPerChar)\<close>, and a negative end counts
  from the end of the array: with \<open>k = -1\<close> the bucket of \<open>a\<close>, which has two
  substitutes, keeps one entry.
\<close>

theorem maxPerChar_bounds_counterexample:
  "map_option length (buildPrototypeBuckets demoEnv (buildCap (-1)) (js ''a'')) = Some 1"
  by (rule capneg)

text \<open>
  Claim C9 as amended: for every configuration with \<^verbatim>\<open>maxPerChar = k\<close> and \<open>k \<ge> 0\<close>,
  every bucket that \<^verbatim>\<open>buildPrototypeBuckets\<close> produces has at most \<open>k\<close> entries and
  is sorted descending by the configured score key (\<^verbatim>\<open>stableDanger\<close> by default,
  \<^verbatim>\<open>danger\<close> with \<^verbatim>\<open>useMaxDanger\<close>); and \<^verbatim>\<open>generateVariants\<close> returns at most \<open>k\<close>
  1-edit variants for each label position, both when it runs with \<^verbatim>\<open>maxPerChar = k\<close>
  and when it is given buckets built with \<^verbatim>\<open>maxPerChar = k\<close>.
\<close>

theorem maxPerChar_bounds:
  assumes "0 \<le> k"
  shows "(buildPrototypeBuckets e
            \<lparr>bo_includeNonPvalid = inc, bo_maxPerChar = Some k, bo_useMaxDanger = umd\<rparr> x = Some b \<longrightarrow>
            int (length b) \<le> k \<and>
            sorted_wrt (\<lambda>s t. subScoreOf (if umd = Some True then dangerKey else stableDangerKey) t
                             \<le> subScoreOf (if umd = Some True then dangerKey else stableDangerKey) s) b) \<and>
         (go_maxPerChar options = Some k \<longrightarrow>
            int (length (filter (isOneEditAt i) (generateVariants e label' options buckets))) \<le> k) \<and>
         int (length (filter (isOneEditAt i)
                (generateVariants e label' options
                   (Some (buildPrototypeBuckets e
                      \<lparr>bo_includeNonPvalid = inc, bo_maxPerChar = Some k, bo_useMaxDanger = umd\<rparr>))))) \<le> k"
proof (intro conjI impI)
  let ?bo = "\<lparr>bo_includeNonPvalid = inc, bo_maxPerChar = Some k, bo_useMaxDanger = umd\<rparr>"
  have key: "(if orDefault (bo_useMaxDanger ?bo) False then dangerKey else stableDangerKey)
               = (if umd = Some True then dangerKey else stableDangerKey)"
    by (cases umd) (auto simp: orDefault_def)
  have cap: "orDefault (bo_maxPerChar ?bo) 50 = k"
    by (simp add: orDefault_def)
  {
    assume b: "buildPrototypeBuckets e ?bo x = Some b"
    from bucket_capped_sorted [OF b] assms
    show "int (length b) \<le> k"
      unfolding cap by simp
    from bucket_capped_sorted [OF b]
    show "sorted_wrt (\<lambda>s t. subScoreOf (if umd = Some True then dangerKey else stableDangerKey) t
                             \<le> subScoreOf (if umd = Some True then dangerKey else stableDangerKey) s) b"
      unfolding key by simp
  }
  {
    assume "go_maxPerChar options = Some k"
    then have m: "orDefault (go_maxPerChar options) 10 = k"
      by (simp add: orDefault_def)
    have "int (length (filter (isOneEditAt i) (generateVariants e label' options buckets)))
            \<le> int (length (oneEditCandidates (bucketsOrBuild e options buckets) k
                   (codePoints (toLowerCase e label')) i))"
      using oneEdit_per_position [of i e label' options buckets] unfolding m by simp
    also have "\<dots> \<le> k"
      using assms by (rule length_oneEditCandidates_cap)
    finally show "int (length (filter (isOneEditAt i) (generateVariants e label' options buckets))) \<le> k" .
  }
  let ?pb = "buildPrototypeBuckets e ?bo"
  let ?chars = "codePoints (toLowerCase e label')"
  have pb: "bucketsOrBuild e options (Some ?pb) = ?pb"
    by (simp add: bucketsOrBuild_def)
  have "int (length (filter (isOneEditAt i) (generateVariants e label' options (Some ?pb))))
          \<le> int (length (oneEditCandidates ?pb (orDefault (go_maxPerChar options) 10) ?chars i))"
    using oneEdit_per_position [of i e label' options "Some ?pb"] unfolding pb by simp
  also have "\<dots> \<le> int (case ?pb (?chars ! i) of None \<Rightarrow> 0 | Some b \<Rightarrow> length b)"
    using length_oneEditCandidates_bucket [of ?pb "orDefault (go_maxPerChar options) 10" ?chars i]
    by simp
  also have "\<dots> \<le> k"
  proof (cases "?pb (?chars ! i)")
    case None
    with assms show ?thesis by simp
  next
    case (Some b')
    from bucket_capped_sorted [OF Some] assms have "int (length b') \<le> k"
      unfolding cap by simp
    with Some show ?thesis by simp
  qed
  finally show "int (length (filter (isOneEditAt i)
                (generateVariants e label' options (Some ?pb)))) \<le> k" .
qed

theorem maxPerChar_bounds_witness:
  "(0::int) \<le> 1 \<and>
   buildPrototypeBuckets demoEnv (buildCap 1) (js ''a'') = Some [subCyrA] \<and>
   int (length [subCyrA]) \<le> 1 \<and>
   int (length (filter (isOneEditAt 0)
          (generateVariants demoEnv (js ''Ab'') genOpts1
             (Some (buildPrototypeBuckets demoEnv (buildCap 1)))))) \<le> 1"
proof -
  have k: "(0::int) \<le> 1" by simp
  from maxPerChar_bounds [OF k, of demoEnv "Some True" None "js ''a''" "[subCyrA]" genOpts1 0 "js ''Ab''" None]
  show ?thesis
    using cap1_a by (simp add: buildCap_def)
qed

end
